theory Spec2Isabelle
  imports Main "HOL-Library.AList"
begin

section \<open>Data model of server.js\<close>

text \<open>
  The server keeps two insertion-ordered JavaScript maps, \<open>users\<close> (socket id to user
  object) and \<open>nameToSockets\<close> (lower-cased name to a set of socket ids). Both are
  modelled as association lists in insertion order: \<open>Map.get\<close> is \<open>map_of\<close>,
  \<open>Map.set\<close> is \<open>AList.update\<close> (an existing key keeps its position, a new key goes
  to the end) and \<open>Map.delete\<close> is \<open>AList.delete\<close>. A JavaScript \<open>Set\<close> of socket ids
  is a list without duplicates in insertion order.

  Names are strings of code units below 256 (Latin-1). The timers created by \<open>setTimeout\<close> live in
  the runtime; the model keeps the table of pending timers in the server state, each with
  the handle returned by \<open>setTimeout\<close>, its delay and the name its callback closes over.
\<close>

type_synonym sid = nat

datatype status = Idle | Outside | Queue

record user =
  name :: string
  status :: status
  joinedAt :: int
  notificationTimeout :: "nat option"

text \<open>An entry of the projected state: \<open>{name, joinedAt}\<close>.\<close>

type_synonym entry = "string \<times> int"

record pending_timer =
  handle :: nat
  delay :: int
  target :: string

record server =
  users :: "(sid \<times> user) list"
  nameToSockets :: "(string \<times> sid list) list"
  timers :: "pending_timer list"
  nextHandle :: nat

text \<open>What the server sends: to one socket, or (\<open>state_update\<close>) to every socket.\<close>

datatype emission =
    LoginError sid string
  | LoginSuccess sid string
  | StateUpdate "entry list" "entry list"
  | UserStatus sid status
  | YourTurn sid
  | QueueTimeout sid

text \<open>The argument of a \<open>login\<close> event is any JavaScript value.\<close>

datatype jsval = JString string | JOther

definition MAX_OUTSIDE :: int where
  "MAX_OUTSIDE = 4"

definition NOTIFICATION_TIMEOUT :: int where
  "NOTIFICATION_TIMEOUT = 2 * 60 * 1000"

definition initial :: server where
  "initial = \<lparr>users = [], nameToSockets = [], timers = [], nextHandle = 0\<rparr>"

section \<open>Strings\<close>

text \<open>
  The letters that \<open>toLowerCase\<close> changes among the code units below 256: \<open>A\<close> to
  \<open>Z\<close>, and the Latin-1 capitals \<open>0xC0\<close> to \<open>0xDE\<close> without the multiplication sign
  \<open>0xD7\<close>; each goes to the code unit 32 above it.
\<close>

definition upper_case :: "char list" where
  "upper_case = ''ABCDEFGHIJKLMNOPQRSTUVWXYZ'' @
     [CHR 0xC0, CHR 0xC1, CHR 0xC2, CHR 0xC3, CHR 0xC4, CHR 0xC5, CHR 0xC6, CHR 0xC7,
      CHR 0xC8, CHR 0xC9, CHR 0xCA, CHR 0xCB, CHR 0xCC, CHR 0xCD, CHR 0xCE, CHR 0xCF,
      CHR 0xD0, CHR 0xD1, CHR 0xD2, CHR 0xD3, CHR 0xD4, CHR 0xD5, CHR 0xD6, CHR 0xD8,
      CHR 0xD9, CHR 0xDA, CHR 0xDB, CHR 0xDC, CHR 0xDD, CHR 0xDE]"

definition lower_case :: "char list" where
  "lower_case = ''abcdefghijklmnopqrstuvwxyz'' @
     [CHR 0xE0, CHR 0xE1, CHR 0xE2, CHR 0xE3, CHR 0xE4, CHR 0xE5, CHR 0xE6, CHR 0xE7,
      CHR 0xE8, CHR 0xE9, CHR 0xEA, CHR 0xEB, CHR 0xEC, CHR 0xED, CHR 0xEE, CHR 0xEF,
      CHR 0xF0, CHR 0xF1, CHR 0xF2, CHR 0xF3, CHR 0xF4, CHR 0xF5, CHR 0xF6, CHR 0xF8,
      CHR 0xF9, CHR 0xFA, CHR 0xFB, CHR 0xFC, CHR 0xFD, CHR 0xFE]"

definition toLowerCase :: "string \<Rightarrow> string" where
  "toLowerCase s =
     map (\<lambda>c. case map_of (zip upper_case lower_case) c of Some l \<Rightarrow> l | None \<Rightarrow> c) s"

text \<open>
  The white space that \<open>trim\<close> strips among the code units below 256: TAB, LF, VT, FF,
  CR, SPACE and the no-break space \<open>0xA0\<close>.
\<close>

definition isWhiteSpace :: "char \<Rightarrow> bool" where
  "isWhiteSpace c =
     (c \<in> set [CHR 0x09, CHR 0x0A, CHR 0x0B, CHR 0x0C, CHR 0x0D, CHR 0x20, CHR 0xA0])"

definition trim :: "string \<Rightarrow> string" where
  "trim s = rev (dropWhile isWhiteSpace (rev (dropWhile isWhiteSpace s)))"

text \<open>The characters of the class \<open>[<>'"`;()]\<close>; the quotes and the backquote by their codes.\<close>

definition forbidden :: "char list" where
  "forbidden = [CHR ''<'', CHR ''>'', CHR 0x27, CHR 0x22, CHR 0x60, CHR '';'', CHR ''('', CHR '')'']"

definition sanitizeName :: "jsval \<Rightarrow> string option" where
  "sanitizeName v =
     (case v of
        JOther \<Rightarrow> None
      | JString nm \<Rightarrow>
          if nm = [] then None
          else
            let sanitized = trim (filter (\<lambda>c. c \<notin> set forbidden) nm)
            in if length sanitized = 0 \<or> length sanitized > 30 then None
               else Some sanitized)"

section \<open>The projected state\<close>

text \<open>
  The loop of \<open>getState\<close> over \<open>users.entries()\<close>, with the set of processed lower-cased
  names and the two arrays built so far.
\<close>

fun getState_loop ::
  "(sid \<times> user) list \<Rightarrow> string list \<Rightarrow> entry list \<Rightarrow> entry list \<Rightarrow> entry list \<times> entry list"
where
  "getState_loop [] processedNames outside queue = (outside, queue)"
| "getState_loop ((socketId, u) # rest) processedNames outside queue =
     (let nameLower = toLowerCase (name u) in
      if nameLower \<in> set processedNames then getState_loop rest processedNames outside queue
      else if status u = Outside then
        getState_loop rest (nameLower # processedNames) (outside @ [(name u, joinedAt u)]) queue
      else if status u = Queue then
        getState_loop rest (nameLower # processedNames) outside (queue @ [(name u, joinedAt u)])
      else getState_loop rest (nameLower # processedNames) outside queue)"

text \<open>\<open>Array.prototype.sort\<close> is stable, as \<open>sort_key\<close> is.\<close>

definition getState :: "server \<Rightarrow> entry list \<times> entry list" where
  "getState st =
     (case getState_loop (users st) [] [] [] of
        (outside, queue) \<Rightarrow> (sort_key snd outside, sort_key snd queue))"

definition broadcastState :: "server \<Rightarrow> emission list" where
  "broadcastState st = (case getState st of (outside, queue) \<Rightarrow> [StateUpdate outside queue])"

section \<open>Lookup by name\<close>

definition getSocketsByName :: "string \<Rightarrow> server \<Rightarrow> sid list" where
  "getSocketsByName nm st =
     (case map_of (nameToSockets st) (toLowerCase nm) of None \<Rightarrow> [] | Some sockets \<Rightarrow> sockets)"

text \<open>
  \<open>getUserByName\<close> returns a reference to the user object of the first socket of the
  name. \<open>userSocketByName\<close> is the key under which that object is stored in \<open>users\<close>:
  the place a write through the reference changes.
\<close>

definition userSocketByName :: "string \<Rightarrow> server \<Rightarrow> sid option" where
  "userSocketByName nm st =
     (case map_of (nameToSockets st) (toLowerCase nm) of
        None \<Rightarrow> None
      | Some sockets \<Rightarrow>
          (case sockets of
             [] \<Rightarrow> None
           | socketId # _ \<Rightarrow> (if map_of (users st) socketId = None then None else Some socketId)))"

definition getUserByName :: "string \<Rightarrow> server \<Rightarrow> user option" where
  "getUserByName nm st =
     (case userSocketByName nm st of None \<Rightarrow> None | Some socketId \<Rightarrow> map_of (users st) socketId)"

section \<open>Status updates and timers\<close>

text \<open>
  The loop of \<open>updateUserStatus\<close> over the sockets of the name. Every call in the file
  leaves \<open>additionalData\<close> at its default \<open>{}\<close>.
\<close>

fun updateUserStatus_loop ::
  "sid list \<Rightarrow> status \<Rightarrow> int \<Rightarrow> (sid \<times> user) list \<Rightarrow> (sid \<times> user) list"
where
  "updateUserStatus_loop [] stat timestamp us = us"
| "updateUserStatus_loop (socketId # sockets) stat timestamp us =
     (case map_of us socketId of
        None \<Rightarrow> updateUserStatus_loop sockets stat timestamp us
      | Some u \<Rightarrow>
          updateUserStatus_loop sockets stat timestamp
            (AList.update socketId (u\<lparr>status := stat, joinedAt := timestamp\<rparr>) us))"

definition updateUserStatus :: "string \<Rightarrow> status \<Rightarrow> int \<Rightarrow> server \<Rightarrow> server" where
  "updateUserStatus nm stat timestamp st =
     st\<lparr>users := updateUserStatus_loop (getSocketsByName nm st) stat timestamp (users st)\<rparr>"

definition clearTimeout :: "nat \<Rightarrow> pending_timer list \<Rightarrow> pending_timer list" where
  "clearTimeout h ts = filter (\<lambda>t. handle t \<noteq> h) ts"

definition clearUserNotificationTimeout :: "string \<Rightarrow> server \<Rightarrow> server" where
  "clearUserNotificationTimeout nm st =
     (case userSocketByName nm st of
        None \<Rightarrow> st
      | Some socketId \<Rightarrow>
          (case map_of (users st) socketId of
             None \<Rightarrow> st
           | Some u \<Rightarrow>
               (case notificationTimeout u of
                  None \<Rightarrow> st
                | Some h \<Rightarrow>
                    st\<lparr>timers := clearTimeout h (timers st),
                       users := AList.update socketId (u\<lparr>notificationTimeout := None\<rparr>) (users st)\<rparr>)))"

section \<open>The turn notifier\<close>

fun clear_loop :: "entry list \<Rightarrow> server \<Rightarrow> server" where
  "clear_loop [] st = st"
| "clear_loop (queuedUser # rest) st = clear_loop rest (clearUserNotificationTimeout (fst queuedUser) st)"

text \<open>
  One round of the second loop of \<open>notifyNextInQueue\<close>: \<open>setTimeout\<close> registers the
  callback for \<open>queuedUser.name\<close> under a new handle, the handle is stored in the user
  object, and \<open>your_turn\<close> goes to every socket of the name.
\<close>

definition notify_one :: "entry \<Rightarrow> server \<times> emission list \<Rightarrow> server \<times> emission list" where
  "notify_one queuedUser acc =
     (case acc of (st, out) \<Rightarrow>
        (case userSocketByName (fst queuedUser) st of
           None \<Rightarrow> (st, out)
         | Some socketId \<Rightarrow>
             (case map_of (users st) socketId of
                None \<Rightarrow> (st, out)
              | Some u \<Rightarrow>
                  (let timeoutId = nextHandle st in
                   (st\<lparr>timers := timers st @
                          [\<lparr>handle = timeoutId, delay = NOTIFICATION_TIMEOUT, target = fst queuedUser\<rparr>],
                       nextHandle := Suc timeoutId,
                       users := AList.update socketId (u\<lparr>notificationTimeout := Some timeoutId\<rparr>) (users st)\<rparr>,
                    out @ map YourTurn (getSocketsByName (fst queuedUser) st))))))"

fun notify_loop :: "entry list \<Rightarrow> server \<times> emission list \<Rightarrow> server \<times> emission list" where
  "notify_loop [] acc = acc"
| "notify_loop (queuedUser # rest) acc = notify_loop rest (notify_one queuedUser acc)"

definition notifyNextInQueue :: "server \<Rightarrow> server \<times> emission list" where
  "notifyNextInQueue st =
     (case getState st of (outside, queue) \<Rightarrow>
        (let availableSlots = max 0 (MAX_OUTSIDE - int (length outside));
             st1 = clear_loop queue st
         in if availableSlots \<le> 0 \<or> length queue = 0 then (st1, [])
            else
              (let toNotify = min availableSlots (int (length queue))
               in notify_loop (take (nat toNotify) queue) (st1, []))))"

text \<open>
  The callback of a claim timer, for the name it closes over. It runs when the runtime
  fires the timer.
\<close>

definition timeout_callback :: "string \<Rightarrow> int \<Rightarrow> server \<Rightarrow> server \<times> emission list" where
  "timeout_callback nm now st =
     (case getUserByName nm st of
        None \<Rightarrow> (st, [])
      | Some currentUser \<Rightarrow>
          if status currentUser = Queue then
            (let st1 = updateUserStatus nm Idle now st;
                 out1 = map QueueTimeout (getSocketsByName nm st1);
                 out2 = broadcastState st1
             in case notifyNextInQueue st1 of (st2, out3) \<Rightarrow> (st2, out1 @ out2 @ out3))
          else (st, []))"

section \<open>The socket handlers\<close>

definition set_add :: "sid \<Rightarrow> sid list \<Rightarrow> sid list" where
  "set_add x xs = (if x \<in> set xs then xs else xs @ [x])"

definition login :: "sid \<Rightarrow> jsval \<Rightarrow> int \<Rightarrow> server \<Rightarrow> server \<times> emission list" where
  "login socket v now st =
     (case sanitizeName v of
        None \<Rightarrow> (st, [LoginError socket ''Invalid name''])
      | Some sanitized \<Rightarrow>
          (let nameLower = toLowerCase sanitized;
               fresh = \<lparr>name = sanitized, status = Idle, joinedAt = now, notificationTimeout = None\<rparr>
           in
           if (case map_of (nameToSockets st) nameLower of
                 None \<Rightarrow> False | Some sockets \<Rightarrow> socket \<in> set sockets) then
             (let st1 = (if map_of (users st) socket = None
                         then st\<lparr>users := AList.update socket fresh (users st)\<rparr> else st)
              in (st1, LoginSuccess socket sanitized # broadcastState st1))
           else if (case map_of (nameToSockets st) nameLower of
                      None \<Rightarrow> False | Some sockets \<Rightarrow> length sockets > 0) then
             (st, [LoginError socket ''Name already in use''])
           else
             (let sockets = (case map_of (nameToSockets st) nameLower of
                               None \<Rightarrow> [] | Some sockets \<Rightarrow> sockets);
                  st1 = st\<lparr>nameToSockets := AList.update nameLower (set_add socket sockets) (nameToSockets st),
                           users := AList.update socket fresh (users st)\<rparr>
              in (st1, LoginSuccess socket sanitized # broadcastState st1))))"

text \<open>\<open>findIndex\<close> on the projected queue, by lower-cased name; \<open>-1\<close> when absent.\<close>

fun findIndex :: "string \<Rightarrow> entry list \<Rightarrow> int" where
  "findIndex key [] = -1"
| "findIndex key (e # es) =
     (if toLowerCase (fst e) = key then 0
      else (let i = findIndex key es in if i < 0 then -1 else i + 1))"

definition leave_class :: "sid \<Rightarrow> int \<Rightarrow> server \<Rightarrow> server \<times> emission list" where
  "leave_class socket now st =
     (case map_of (users st) socket of
        None \<Rightarrow> (st, [])
      | Some u \<Rightarrow>
          (case getState st of (outside, queue) \<Rightarrow>
             (let outsideCount = int (length outside);
                  queueCount = int (length queue);
                  availableSlots = MAX_OUTSIDE - outsideCount;
                  isUserQueued = (\<exists>e \<in> set queue. toLowerCase (fst e) = toLowerCase (name u));
                  queueIndex = findIndex (toLowerCase (name u)) queue;
                  st1 = clearUserNotificationTimeout (name u) st;
                  st2 =
                    (if queueCount > 0 then
                       (if isUserQueued \<and> queueIndex > -1 \<and> queueIndex < availableSlots then
                          updateUserStatus (name u) Outside now st1
                        else if \<not> isUserQueued \<and> queueCount < availableSlots then
                          updateUserStatus (name u) Outside now st1
                        else updateUserStatus (name u) Queue now st1)
                     else
                       (if outsideCount < MAX_OUTSIDE then updateUserStatus (name u) Outside now st1
                        else updateUserStatus (name u) Queue now st1));
                  out1 = broadcastState st2
              in case notifyNextInQueue st2 of (st3, out2) \<Rightarrow> (st3, out1 @ out2))))"

definition come_back :: "sid \<Rightarrow> int \<Rightarrow> server \<Rightarrow> server \<times> emission list" where
  "come_back socket now st =
     (case map_of (users st) socket of
        None \<Rightarrow> (st, [])
      | Some u \<Rightarrow>
          if status u \<noteq> Outside then (st, [])
          else
            (let st1 = updateUserStatus (name u) Idle now st;
                 out1 = broadcastState st1
             in case notifyNextInQueue st1 of (st2, out2) \<Rightarrow> (st2, out1 @ out2)))"

definition leave_queue :: "sid \<Rightarrow> int \<Rightarrow> server \<Rightarrow> server \<times> emission list" where
  "leave_queue socket now st =
     (case map_of (users st) socket of
        None \<Rightarrow> (st, [])
      | Some u \<Rightarrow>
          if status u \<noteq> Queue then (st, [])
          else
            (let st1 = clearUserNotificationTimeout (name u) st;
                 st2 = updateUserStatus (name u) Idle now st1;
                 out1 = broadcastState st2
             in case notifyNextInQueue st2 of (st3, out2) \<Rightarrow> (st3, out1 @ out2)))"

definition request_state :: "sid \<Rightarrow> server \<Rightarrow> server \<times> emission list" where
  "request_state socket st =
     (st, (case map_of (users st) socket of None \<Rightarrow> [] | Some u \<Rightarrow> [UserStatus socket (status u)])
          @ broadcastState st)"

definition disconnect :: "sid \<Rightarrow> server \<Rightarrow> server \<times> emission list" where
  "disconnect socket st =
     (case map_of (users st) socket of
        None \<Rightarrow> (st, [])
      | Some u \<Rightarrow>
          (let nameLower = toLowerCase (name u) in
           case map_of (nameToSockets st) nameLower of
             None \<Rightarrow> (st, [])
           | Some sockets0 \<Rightarrow>
               (let sockets = removeAll socket sockets0 in
                if length sockets = 0 then
                  (let st1 = st\<lparr>nameToSockets := AList.delete nameLower (nameToSockets st)\<rparr>;
                       st2 = clearUserNotificationTimeout (name u) st1;
                       st3 = st2\<lparr>users := AList.delete socket (users st2)\<rparr>;
                       out1 = broadcastState st3
                   in case notifyNextInQueue st3 of (st4, out2) \<Rightarrow> (st4, out1 @ out2))
                else
                  (st\<lparr>nameToSockets := AList.update nameLower sockets (nameToSockets st),
                      users := AList.delete socket (users st)\<rparr>, []))))"

section \<open>Events\<close>

text \<open>
  The server processes one event at a time: a message of a socket, a disconnect, or a
  pending timer that fires (the runtime removes it from its table and runs the
  callback). Every event carries the value \<open>Date.now()\<close> has while it is handled.
  Any socket id may send any event at any time and a pending timer may fire at any
  time (its delay is recorded, not enforced), so the reachable states include those of
  every sequence of events the transport and the runtime can deliver.
\<close>

datatype event =
    Login sid jsval
  | LeaveClass sid
  | ComeBack sid
  | LeaveQueue sid
  | RequestState sid
  | Disconnect sid
  | TimerFires nat

definition timer_fires :: "nat \<Rightarrow> int \<Rightarrow> server \<Rightarrow> server \<times> emission list" where
  "timer_fires h now st =
     (case find (\<lambda>t. handle t = h) (timers st) of
        None \<Rightarrow> (st, [])
      | Some t \<Rightarrow> timeout_callback (target t) now (st\<lparr>timers := clearTimeout h (timers st)\<rparr>))"

fun step :: "event \<Rightarrow> int \<Rightarrow> server \<Rightarrow> server \<times> emission list" where
  "step (Login socket v) now st = login socket v now st"
| "step (LeaveClass socket) now st = leave_class socket now st"
| "step (ComeBack socket) now st = come_back socket now st"
| "step (LeaveQueue socket) now st = leave_queue socket now st"
| "step (RequestState socket) now st = request_state socket st"
| "step (Disconnect socket) now st = disconnect socket st"
| "step (TimerFires h) now st = timer_fires h now st"

fun run :: "(event \<times> int) list \<Rightarrow> server \<Rightarrow> server" where
  "run [] st = st"
| "run ((ev, now) # evs) st = run evs (fst (step ev now st))"

inductive reachable :: "server \<Rightarrow> bool" where
  reachable_initial: "reachable initial"
| reachable_step: "reachable st \<Longrightarrow> reachable (fst (step ev now st))"

section \<open>Derived notions\<close>

text \<open>The socket and the name of every user record, in the order of \<open>users\<close>.\<close>

definition ids :: "(sid \<times> user) list \<Rightarrow> (sid \<times> string) list" where
  "ids us = map (\<lambda>(s, u). (s, name u)) us"

text \<open>The registry has one entry per key, and the socket set of every entry is a singleton.\<close>

definition inv_registry :: "server \<Rightarrow> bool" where
  "inv_registry st =
     (distinct (map fst (nameToSockets st)) \<and>
      (\<forall>(k, sockets) \<in> set (nameToSockets st). length sockets = 1))"

text \<open>
  \<open>users\<close> has one record per socket, and the registry entry of the lower-cased name of
  a record is the set with just the socket of the record.
\<close>

definition inv_users :: "server \<Rightarrow> bool" where
  "inv_users st =
     (distinct (map fst (users st)) \<and>
      (\<forall>(s, nm) \<in> set (ids (users st)). map_of (nameToSockets st) (toLowerCase nm) = Some [s]))"

text \<open>
  The two calls that end every handler that has changed the state: \<open>broadcastState()\<close>,
  then \<open>notifyNextInQueue()\<close>.
\<close>

definition after_change :: "server \<Rightarrow> server \<times> emission list" where
  "after_change st = (fst (notifyNextInQueue st), broadcastState st @ snd (notifyNextInQueue st))"

text \<open>
  A scenario: five sockets log in. The first four go outside, the fifth has to queue. When
  the fourth comes back, the fifth is told that it is its turn and its claim timer is
  armed.
\<close>

definition scenario :: "(event \<times> int) list" where
  "scenario =
     [(Login 1 (JString ''a''), 1), (Login 2 (JString ''b''), 2), (Login 3 (JString ''c''), 3),
      (Login 4 (JString ''d''), 4), (Login 5 (JString ''Alice''), 5),
      (LeaveClass 1, 11), (LeaveClass 2, 12), (LeaveClass 3, 13), (LeaveClass 4, 14),
      (LeaveClass 5, 15), (ComeBack 4, 16)]"

text \<open>Socket \<open>s\<close> is in the socket set of the key.\<close>

definition owns :: "server \<Rightarrow> string \<Rightarrow> sid \<Rightarrow> bool" where
  "owns st key s =
     (case map_of (nameToSockets st) key of None \<Rightarrow> False | Some sockets \<Rightarrow> s \<in> set sockets)"

text \<open>The fields of the user records that \<open>getState\<close> reads.\<close>

definition view :: "(sid \<times> user) list \<Rightarrow> (string \<times> status \<times> int) list" where
  "view us = map (\<lambda>(s, u). (name u, status u, joinedAt u)) us"

text \<open>The events whose handlers end with a broadcast and a pass of the notifier.\<close>

fun state_changing :: "event \<Rightarrow> bool" where
  "state_changing (Login s v) = False"
| "state_changing (RequestState s) = False"
| "state_changing (LeaveClass s) = True"
| "state_changing (ComeBack s) = True"
| "state_changing (LeaveQueue s) = True"
| "state_changing (Disconnect s) = True"
| "state_changing (TimerFires h) = True"

text \<open>
  The guard of each handler: the event passes the early returns and reaches the change of
  the state. For a disconnect this is the branch of the last socket of the name.
\<close>

fun takes_effect :: "event \<Rightarrow> server \<Rightarrow> bool" where
  "takes_effect (Login s v) st = False"
| "takes_effect (RequestState s) st = False"
| "takes_effect (LeaveClass s) st = (map_of (users st) s \<noteq> None)"
| "takes_effect (ComeBack s) st =
     (case map_of (users st) s of None \<Rightarrow> False | Some u \<Rightarrow> status u = Outside)"
| "takes_effect (LeaveQueue s) st =
     (case map_of (users st) s of None \<Rightarrow> False | Some u \<Rightarrow> status u = Queue)"
| "takes_effect (Disconnect s) st =
     (case map_of (users st) s of
        None \<Rightarrow> False
      | Some u \<Rightarrow>
          (case map_of (nameToSockets st) (toLowerCase (name u)) of
             None \<Rightarrow> False
           | Some sockets \<Rightarrow> removeAll s sockets = []))"
| "takes_effect (TimerFires h) st =
     (case find (\<lambda>t. handle t = h) (timers st) of
        None \<Rightarrow> False
      | Some t \<Rightarrow>
          (case getUserByName (target t) st of None \<Rightarrow> False | Some u \<Rightarrow> status u = Queue))"

text \<open>
  The output of an event that changes the state: the \<open>queue_timeout\<close> signals, then the
  \<open>state_update\<close> with the projection of the final state, then what the notifier emits
  on the changed state \<open>mid\<close>, which is \<open>your_turn\<close> signals only.
\<close>

definition ordered_output :: "server \<Rightarrow> emission list \<Rightarrow> bool" where
  "ordered_output st' out =
     (\<exists>mid timed_out notified.
        st' = fst (notifyNextInQueue mid)
      \<and> snd (notifyNextInQueue mid) = map YourTurn notified
      \<and> out = map QueueTimeout timed_out
                 @ [StateUpdate (fst (getState st')) (snd (getState st'))]
                 @ map YourTurn notified)"

text \<open>An event that returns early: nothing is sent and nothing but the fired timer changes.\<close>

definition ignored :: "server \<Rightarrow> server \<Rightarrow> emission list \<Rightarrow> bool" where
  "ignored st st' out =
     (out = [] \<and> users st' = users st \<and> nameToSockets st' = nameToSockets st
      \<and> nextHandle st' = nextHandle st \<and> set (timers st') \<subseteq> set (timers st))"

text \<open>The entry \<open>getState\<close> builds from a user record.\<close>

definition ent :: "sid \<times> user \<Rightarrow> entry" where
  "ent p = (name (snd p), joinedAt (snd p))"

text \<open>Records of a given status, and how many there are.\<close>

definition has_status :: "status \<Rightarrow> sid \<times> user \<Rightarrow> bool" where
  "has_status x p = (status (snd p) = x)"

definition count_status :: "status \<Rightarrow> (sid \<times> user) list \<Rightarrow> nat" where
  "count_status x us = length (filter (has_status x) us)"

text \<open>
  Every handle of a pending timer and every handle stored in a user record was returned
  by an earlier \<open>setTimeout\<close>.
\<close>

definition inv_handles :: "server \<Rightarrow> bool" where
  "inv_handles st =
     ((\<forall>t \<in> set (timers st). handle t < nextHandle st) \<and>
      (\<forall>p \<in> set (users st). \<forall>h. notificationTimeout (snd p) = Some h \<longrightarrow> h < nextHandle st))"

text \<open>The invariant of the server state, also between the steps of a handler.\<close>

definition consistent :: "server \<Rightarrow> bool" where
  "consistent st =
     (inv_registry st \<and> inv_users st \<and> inv_handles st \<and> count_status Outside (users st) \<le> 4)"

text \<open>
  An event that runs no pass of the notifier: no handle is created, no timer is added,
  and the records stay as they are up to one that is replaced by an idle record without
  timer.
\<close>

definition quiet :: "server \<Rightarrow> server \<Rightarrow> bool" where
  "quiet st st' =
     (nextHandle st' = nextHandle st \<and> set (timers st') \<subseteq> set (timers st) \<and>
      (users st' = users st \<or>
       (\<exists>s v. status v = Idle \<and> notificationTimeout v = None \<and> users st' = AList.update s v (users st))))"

text \<open>\<open>user.notificationTimeout = null\<close>.\<close>

definition disarm :: "user \<Rightarrow> user" where
  "disarm u = u\<lparr>notificationTimeout := None\<rparr>"

text \<open>
  The identity of a name holds an armed claim timer: the handle in the
  \<open>notificationTimeout\<close> field of its user record is the handle of a pending timer.
\<close>

definition holds_timer :: "server \<Rightarrow> string \<Rightarrow> bool" where
  "holds_timer st nm =
     (case getUserByName nm st of
        None \<Rightarrow> False
      | Some u \<Rightarrow>
          (case notificationTimeout u of
             None \<Rightarrow> False
           | Some h \<Rightarrow> h \<in> handle ` set (timers st)))"

text \<open>\<open>availableSlots\<close> of the notifier: \<open>max 0 (MAX_OUTSIDE - outsideCount)\<close>.\<close>

definition slots :: "server \<Rightarrow> nat" where
  "slots st = nat (max 0 (MAX_OUTSIDE - int (length (fst (getState st)))))"

text \<open>A queued record whose handle is pending.\<close>

definition armed :: "server \<Rightarrow> sid \<times> user \<Rightarrow> bool" where
  "armed st p =
     (has_status Queue p \<and>
      (case notificationTimeout (snd p) of
         None \<Rightarrow> False
       | Some h \<Rightarrow> h \<in> handle ` set (timers st)))"

text \<open>
  What a pass of the notifier on \<open>st\<close> achieves: the projection is unchanged; no handle
  that the record of a queued identity held before is pending; the queued identities that
  hold a pending timer are exactly the first \<open>min (slots st) |queue|\<close> of the queue; each
  of these holds a handle created by the pass, pending with delay \<open>NOTIFICATION_TIMEOUT\<close>
  for its name, and \<open>your_turn\<close> has gone to every socket of the name.
\<close>

definition notifier_post :: "server \<Rightarrow> bool" where
  "notifier_post st =
     (let queue = snd (getState st);
          k = min (slots st) (length queue);
          st' = fst (notifyNextInQueue st);
          out = snd (notifyNextInQueue st)
      in getState st' = getState st
       \<and> (\<forall>e \<in> set queue. \<forall>u h.
             getUserByName (fst e) st = Some u \<and> notificationTimeout u = Some h
               \<longrightarrow> h \<notin> handle ` set (timers st'))
       \<and> filter (\<lambda>e. holds_timer st' (fst e)) queue = take k queue
       \<and> (\<forall>e \<in> set (take k queue). \<exists>u' h.
             getUserByName (fst e) st' = Some u' \<and> notificationTimeout u' = Some h
           \<and> nextHandle st \<le> h \<and> h \<notin> handle ` set (timers st)
           \<and> \<lparr>handle = h, delay = NOTIFICATION_TIMEOUT, target = fst e\<rparr> \<in> set (timers st')
           \<and> (\<forall>t \<in> set (getSocketsByName (fst e) st'). YourTurn t \<in> set out)))"

text \<open>
  The scenario goes on: the fifth socket, queued as \<open>Alice\<close> with the armed timer 0,
  disconnects; the fourth goes outside again; a sixth socket logs in as \<open>alice\<close>.
\<close>

definition stale_scenario :: "(event \<times> int) list" where
  "stale_scenario =
     scenario @ [(Disconnect 5, 17), (LeaveClass 4, 18), (Login 6 (JString ''alice''), 19)]"

text \<open>
  Another continuation: the fifth socket, queued as \<open>Alice\<close> with the armed timer 0, logs
  in again as \<open>Zed\<close>; the fourth goes outside again; the fifth queues as \<open>Zed\<close>.
\<close>

definition rename_scenario :: "(event \<times> int) list" where
  "rename_scenario =
     scenario @ [(Login 5 (JString ''Zed''), 17), (LeaveClass 4, 18), (LeaveClass 5, 19)]"

section \<open>Properties\<close>

subsection \<open>Association lists\<close>

lemma update_absent: "map_of al k = None \<Longrightarrow> AList.update k v al = al @ [(k, v)]"
  by (induction al) (auto split: if_splits)

subsection \<open>The registry is touched by login and disconnect only\<close>

lemma nameToSockets_clearUser [simp]:
  "nameToSockets (clearUserNotificationTimeout nm st) = nameToSockets st"
  by (simp add: clearUserNotificationTimeout_def split: option.splits)

lemma nameToSockets_updateUserStatus [simp]:
  "nameToSockets (updateUserStatus nm stat ts st) = nameToSockets st"
  by (simp add: updateUserStatus_def)

lemma nameToSockets_clear_loop [simp]:
  "nameToSockets (clear_loop q st) = nameToSockets st"
  by (induction q arbitrary: st) simp_all

lemma nameToSockets_notify_one [simp]:
  "nameToSockets (fst (notify_one e acc)) = nameToSockets (fst acc)"
  by (cases acc) (simp add: notify_one_def Let_def split: option.splits)

lemma nameToSockets_notify_loop [simp]:
  "nameToSockets (fst (notify_loop q acc)) = nameToSockets (fst acc)"
  by (induction q arbitrary: acc) simp_all

lemma nameToSockets_notifyNextInQueue [simp]:
  "nameToSockets (fst (notifyNextInQueue st)) = nameToSockets st"
  by (simp add: notifyNextInQueue_def Let_def split: prod.splits)

lemma nameToSockets_timeout_callback [simp]:
  "nameToSockets (fst (timeout_callback nm now st)) = nameToSockets st"
proof -
  have "nameToSockets (fst (notifyNextInQueue (updateUserStatus nm Idle now st))) = nameToSockets st"
    by simp
  then show ?thesis
    by (simp add: timeout_callback_def Let_def split_def split: option.splits)
qed

lemma nameToSockets_timer_fires [simp]:
  "nameToSockets (fst (timer_fires h now st)) = nameToSockets st"
  by (simp add: timer_fires_def split: option.splits)

lemma nameToSockets_leave_class [simp]:
  "nameToSockets (fst (leave_class s now st)) = nameToSockets st"
proof (cases "map_of (users st) s")
  case None
  then show ?thesis by (simp add: leave_class_def)
next
  case (Some u)
  have *: "nameToSockets (fst (notifyNextInQueue (updateUserStatus (name u) x now (clearUserNotificationTimeout (name u) st)))) = nameToSockets st" for x
    by simp
  show ?thesis using Some *[of Outside] *[of Queue]
    by (simp add: leave_class_def Let_def split_def)
qed

lemma nameToSockets_come_back [simp]:
  "nameToSockets (fst (come_back s now st)) = nameToSockets st"
proof (cases "map_of (users st) s")
  case None
  then show ?thesis by (simp add: come_back_def)
next
  case (Some u)
  have *: "nameToSockets (fst (notifyNextInQueue (updateUserStatus (name u) Idle now st))) = nameToSockets st"
    by simp
  show ?thesis using Some *
    by (simp add: come_back_def Let_def split_def)
qed

lemma nameToSockets_leave_queue [simp]:
  "nameToSockets (fst (leave_queue s now st)) = nameToSockets st"
proof (cases "map_of (users st) s")
  case None
  then show ?thesis by (simp add: leave_queue_def)
next
  case (Some u)
  have *: "nameToSockets (fst (notifyNextInQueue (updateUserStatus (name u) Idle now (clearUserNotificationTimeout (name u) st)))) = nameToSockets st"
    by simp
  show ?thesis using Some *
    by (simp add: leave_queue_def Let_def split_def)
qed

lemma nameToSockets_request_state [simp]:
  "nameToSockets (fst (request_state s st)) = nameToSockets st"
  by (simp add: request_state_def)

subsection \<open>ids\<close>

lemma map_fst_ids [simp]: "map fst (ids us) = map fst us"
  by (simp add: ids_def split_def)

lemma ids_update_same:
  "map_of al k = Some u \<Longrightarrow> name v = name u \<Longrightarrow> ids (AList.update k v al) = ids al"
  by (induction al) (auto simp: ids_def split: if_splits)

lemma ids_update_subset: "set (ids (AList.update k v al)) \<subseteq> insert (k, name v) (set (ids al))"
  by (induction al) (auto simp: ids_def split: if_splits)

lemma ids_delete_subset: "set (ids (AList.delete k al)) \<subseteq> {p \<in> set (ids al). fst p \<noteq> k}"
  by (induction al) (auto simp: ids_def split: if_splits)

lemma ids_map_of: "map_of al s = Some u \<Longrightarrow> (s, name u) \<in> set (ids al)"
  by (force simp: ids_def dest: map_of_SomeD)

subsection \<open>Primitive operations keep the names of the records\<close>

lemma ids_clearUser [simp]: "ids (users (clearUserNotificationTimeout nm st)) = ids (users st)"
  by (simp add: clearUserNotificationTimeout_def ids_update_same split: option.splits)

lemma ids_updateUserStatus_loop [simp]:
  "ids (updateUserStatus_loop sockets stat ts us) = ids us"
  by (induction sockets arbitrary: us) (simp_all add: ids_update_same split: option.splits)

lemma ids_updateUserStatus [simp]: "ids (users (updateUserStatus nm stat ts st)) = ids (users st)"
  by (simp add: updateUserStatus_def)

lemma ids_clear_loop [simp]: "ids (users (clear_loop q st)) = ids (users st)"
  by (induction q arbitrary: st) simp_all

lemma ids_notify_one [simp]: "ids (users (fst (notify_one e acc))) = ids (users (fst acc))"
  by (cases acc) (simp add: notify_one_def Let_def ids_update_same split: option.splits)

lemma ids_notify_loop [simp]: "ids (users (fst (notify_loop q acc))) = ids (users (fst acc))"
  by (induction q arbitrary: acc) simp_all

lemma ids_notifyNextInQueue [simp]: "ids (users (fst (notifyNextInQueue st))) = ids (users st)"
  by (simp add: notifyNextInQueue_def Let_def split: prod.splits)

lemma ids_after_change [simp]: "ids (users (fst (after_change st))) = ids (users st)"
  by (simp add: after_change_def)

lemma nameToSockets_after_change [simp]: "nameToSockets (fst (after_change st)) = nameToSockets st"
  by (simp add: after_change_def)

subsection \<open>Handlers as a change followed by broadcast and notification\<close>

lemma leave_class_after:
  assumes "map_of (users st) s = Some u"
  shows "\<exists>x. leave_class s now st =
            after_change (updateUserStatus (name u) x now (clearUserNotificationTimeout (name u) st))
          \<and> x \<noteq> Idle \<and> (x = Outside \<longrightarrow> length (fst (getState st)) < 4)"
  using assms
  by (auto simp: leave_class_def after_change_def Let_def split_def MAX_OUTSIDE_def)

lemma come_back_after:
  "come_back s now st =
     (case map_of (users st) s of
        None \<Rightarrow> (st, [])
      | Some u \<Rightarrow> if status u \<noteq> Outside then (st, [])
                  else after_change (updateUserStatus (name u) Idle now st))"
  by (simp add: come_back_def after_change_def Let_def split_def split: option.splits)

lemma leave_queue_after:
  "leave_queue s now st =
     (case map_of (users st) s of
        None \<Rightarrow> (st, [])
      | Some u \<Rightarrow> if status u \<noteq> Queue then (st, [])
                  else after_change (updateUserStatus (name u) Idle now
                         (clearUserNotificationTimeout (name u) st)))"
  by (simp add: leave_queue_def after_change_def Let_def split_def split: option.splits)

lemma timeout_callback_after:
  "timeout_callback nm now st =
     (case getUserByName nm st of
        None \<Rightarrow> (st, [])
      | Some u \<Rightarrow> if status u = Queue
                  then (fst (after_change (updateUserStatus nm Idle now st)),
                        map QueueTimeout (getSocketsByName nm st)
                          @ snd (after_change (updateUserStatus nm Idle now st)))
                  else (st, []))"
  by (simp add: timeout_callback_def after_change_def Let_def split_def getSocketsByName_def
      split: option.splits)

lemma disconnect_after:
  "disconnect s st =
     (case map_of (users st) s of
        None \<Rightarrow> (st, [])
      | Some u \<Rightarrow>
          (case map_of (nameToSockets st) (toLowerCase (name u)) of
             None \<Rightarrow> (st, [])
           | Some sockets0 \<Rightarrow>
               if removeAll s sockets0 = [] then
                 after_change
                   ((clearUserNotificationTimeout (name u)
                      (st\<lparr>nameToSockets := AList.delete (toLowerCase (name u)) (nameToSockets st)\<rparr>))
                    \<lparr>users := AList.delete s
                       (users (clearUserNotificationTimeout (name u)
                          (st\<lparr>nameToSockets := AList.delete (toLowerCase (name u)) (nameToSockets st)\<rparr>)))\<rparr>)
               else (st\<lparr>nameToSockets := AList.update (toLowerCase (name u)) (removeAll s sockets0) (nameToSockets st),
                        users := AList.delete s (users st)\<rparr>, [])))"
  by (simp add: disconnect_def after_change_def Let_def split_def split: option.splits)

lemma clearUser_deleted:
  "clearUserNotificationTimeout nm (st\<lparr>nameToSockets := AList.delete (toLowerCase nm) (nameToSockets st)\<rparr>)
     = st\<lparr>nameToSockets := AList.delete (toLowerCase nm) (nameToSockets st)\<rparr>"
  by (simp add: clearUserNotificationTimeout_def userSocketByName_def delete_conv')

lemma disconnect_last:
  assumes "map_of (users st) s = Some u"
    and "map_of (nameToSockets st) (toLowerCase (name u)) = Some sockets0"
    and "removeAll s sockets0 = []"
  shows "disconnect s st =
           after_change (st\<lparr>nameToSockets := AList.delete (toLowerCase (name u)) (nameToSockets st),
                            users := AList.delete s (users st)\<rparr>)"
  using assms by (simp add: disconnect_after clearUser_deleted)

subsection \<open>The registry invariant\<close>

lemma inv_registry_map_of:
  "inv_registry st \<Longrightarrow> map_of (nameToSockets st) k = Some sockets \<Longrightarrow> length sockets = 1"
  by (auto simp: inv_registry_def dest: map_of_SomeD)

lemma inv_registry_cong:
  "nameToSockets st' = nameToSockets st \<Longrightarrow> inv_registry st \<Longrightarrow> inv_registry st'"
  by (simp add: inv_registry_def)

lemma set_update_subset: "set (AList.update k v al) \<subseteq> insert (k, v) (set al)"
  by (induction al) auto

lemma set_delete_subset: "set (AList.delete k al) \<subseteq> set al"
  by (induction al) auto

lemma inv_registry_update:
  assumes "inv_registry st" and "length sockets = 1"
  shows "inv_registry (st\<lparr>nameToSockets := AList.update k sockets (nameToSockets st), users := us\<rparr>)"
  using assms set_update_subset [of k sockets "nameToSockets st"]
  by (auto simp: inv_registry_def distinct_update)

lemma inv_registry_delete:
  assumes "inv_registry st"
  shows "inv_registry (st\<lparr>nameToSockets := AList.delete k (nameToSockets st), users := us\<rparr>)"
  using assms set_delete_subset [of k "nameToSockets st"]
  by (auto simp: inv_registry_def distinct_delete)

lemma inv_registry_users [simp]: "inv_registry (st\<lparr>users := us\<rparr>) = inv_registry st"
  by (simp add: inv_registry_def)

lemma inv_registry_login:
  assumes "inv_registry st"
  shows "inv_registry (fst (login s v now st))"
proof (cases "sanitizeName v")
  case None
  then show ?thesis using assms by (simp add: login_def)
next
  case (Some n)
  show ?thesis
  proof (cases "map_of (nameToSockets st) (toLowerCase n)")
    case None
    have "inv_registry (st\<lparr>nameToSockets := AList.update (toLowerCase n) [s] (nameToSockets st), users := us\<rparr>)" for us
      using assms by (rule inv_registry_update) simp
    with Some None show ?thesis
      by (simp add: login_def Let_def set_add_def)
  next
    case (Some sockets)
    then have "length sockets = 1" using assms by (rule inv_registry_map_of [rotated])
    with Some \<open>sanitizeName v = Some n\<close> assms show ?thesis
      by (simp add: login_def Let_def)
  qed
qed

lemma inv_registry_disconnect:
  assumes "inv_registry st"
  shows "inv_registry (fst (disconnect s st))"
proof (cases "map_of (users st) s")
  case None
  then show ?thesis using assms by (simp add: disconnect_after)
next
  case u: (Some u)
  show ?thesis
  proof (cases "map_of (nameToSockets st) (toLowerCase (name u))")
    case None
    with u show ?thesis using assms by (simp add: disconnect_after)
  next
    case (Some sockets0)
    then have len: "length sockets0 = 1" using assms by (rule inv_registry_map_of [rotated])
    show ?thesis
    proof (cases "removeAll s sockets0 = []")
      case True
      have "inv_registry (fst (after_change (st\<lparr>nameToSockets := AList.delete (toLowerCase (name u)) (nameToSockets st),
                            users := AList.delete s (users st)\<rparr>)))"
        by (rule inv_registry_cong [OF _ inv_registry_delete [OF assms]]) simp
      with u Some True show ?thesis by (simp add: disconnect_last)
    next
      case False
      with len have "length (removeAll s sockets0) = 1"
        by (cases sockets0) (auto split: if_splits)
      then have "inv_registry (st\<lparr>nameToSockets := AList.update (toLowerCase (name u)) (removeAll s sockets0) (nameToSockets st),
                        users := AList.delete s (users st)\<rparr>)"
        by (rule inv_registry_update [OF assms])
      with u Some False show ?thesis by (simp add: disconnect_after)
    qed
  qed
qed

lemma inv_registry_step:
  assumes "inv_registry st"
  shows "inv_registry (fst (step ev now st))"
proof (cases ev)
  case (Login s v)
  then show ?thesis using assms by (simp add: inv_registry_login)
next
  case (Disconnect s)
  then show ?thesis using assms by (simp add: inv_registry_disconnect)
qed (use assms in \<open>simp_all add: inv_registry_cong\<close>)

subsection \<open>The users invariant\<close>

lemma inv_users_cong:
  assumes "ids (users st') = ids (users st)" and "nameToSockets st' = nameToSockets st"
    and "inv_users st"
  shows "inv_users st'"
proof -
  have "map fst (users st') = map fst (users st)"
    using assms(1) by (metis map_fst_ids)
  with assms show ?thesis by (simp add: inv_users_def)
qed

lemma inv_users_map_of:
  "inv_users st \<Longrightarrow> map_of (users st) s = Some u \<Longrightarrow>
     map_of (nameToSockets st) (toLowerCase (name u)) = Some [s]"
  using ids_map_of [of "users st" s u] by (auto simp: inv_users_def)

lemma inv_users_after_change: "inv_users st \<Longrightarrow> inv_users (fst (after_change st))"
  by (rule inv_users_cong) simp_all

lemma inv_users_add:
  assumes inv: "inv_users st"
    and new: "map_of nts' (toLowerCase (name fresh)) = Some [s]"
    and other: "\<And>k. k \<noteq> toLowerCase (name fresh) \<Longrightarrow> map_of nts' k = map_of (nameToSockets st) k"
    and old: "map_of (nameToSockets st) (toLowerCase (name fresh)) = None
              \<or> map_of (nameToSockets st) (toLowerCase (name fresh)) = Some [s]"
  shows "inv_users (st\<lparr>nameToSockets := nts', users := AList.update s fresh (users st)\<rparr>)"
proof -
  have d: "distinct (map fst (AList.update s fresh (users st)))"
    using inv by (simp add: inv_users_def distinct_update)
  have "map_of nts' (toLowerCase nm) = Some [s']"
    if "(s', nm) \<in> set (ids (AList.update s fresh (users st)))" for s' nm
  proof (cases "(s', nm) = (s, name fresh)")
    case True
    with new show ?thesis by simp
  next
    case False
    with that ids_update_subset [of s fresh "users st"] have "(s', nm) \<in> set (ids (users st))"
      by auto
    with inv have *: "map_of (nameToSockets st) (toLowerCase nm) = Some [s']"
      by (auto simp: inv_users_def)
    show ?thesis
    proof (cases "toLowerCase nm = toLowerCase (name fresh)")
      case True
      with * old new show ?thesis by auto
    next
      case False
      with * other show ?thesis by simp
    qed
  qed
  with d show ?thesis by (auto simp: inv_users_def)
qed

lemma inv_users_login:
  assumes "inv_registry st" and "inv_users st"
  shows "inv_users (fst (login s v now st))"
proof (cases "sanitizeName v")
  case None
  then show ?thesis using assms by (simp add: login_def)
next
  case n: (Some n)
  let ?fresh = "\<lparr>name = n, status = Idle, joinedAt = now, notificationTimeout = None\<rparr>"
  show ?thesis
  proof (cases "map_of (nameToSockets st) (toLowerCase n)")
    case None
    have "inv_users (st\<lparr>nameToSockets := AList.update (toLowerCase n) [s] (nameToSockets st),
                         users := AList.update s ?fresh (users st)\<rparr>)"
      using assms(2) by (rule inv_users_add) (simp_all add: update_conv' None)
    with n None show ?thesis
      by (simp add: login_def Let_def set_add_def)
  next
    case (Some sockets)
    then have "length sockets = 1" using assms(1) by (rule inv_registry_map_of [rotated])
    then obtain s' where s': "sockets = [s']" by (cases sockets) auto
    show ?thesis
    proof (cases "s' = s")
      case True
      have "inv_users (st\<lparr>nameToSockets := nameToSockets st, users := AList.update s ?fresh (users st)\<rparr>)"
        using assms(2) by (rule inv_users_add) (simp_all add: Some s' True)
      with n Some s' True assms(2) show ?thesis
        by (simp add: login_def Let_def)
    next
      case False
      with n Some s' assms(2) show ?thesis
        by (simp add: login_def Let_def)
    qed
  qed
qed

lemma inv_users_disconnect:
  assumes "inv_users st"
  shows "inv_users (fst (disconnect s st))"
proof (cases "map_of (users st) s")
  case None
  then show ?thesis using assms by (simp add: disconnect_after)
next
  case u: (Some u)
  let ?k = "toLowerCase (name u)"
  let ?st' = "st\<lparr>nameToSockets := AList.delete ?k (nameToSockets st), users := AList.delete s (users st)\<rparr>"
  from assms u have reg: "map_of (nameToSockets st) ?k = Some [s]"
    by (rule inv_users_map_of)
  have "map_of (AList.delete ?k (nameToSockets st)) (toLowerCase nm) = Some [s']"
    if "(s', nm) \<in> set (ids (AList.delete s (users st)))" for s' nm
  proof -
    from that ids_delete_subset [of s "users st"]
    have in_old: "(s', nm) \<in> set (ids (users st))" and ne: "s' \<noteq> s" by auto
    from in_old assms have *: "map_of (nameToSockets st) (toLowerCase nm) = Some [s']"
      by (auto simp: inv_users_def)
    with reg ne have "toLowerCase nm \<noteq> ?k" by auto
    with * show ?thesis by (simp add: delete_conv')
  qed
  moreover have "distinct (map fst (AList.delete s (users st)))"
    using assms by (simp add: inv_users_def distinct_delete)
  ultimately have "inv_users ?st'" by (auto simp: inv_users_def)
  then have "inv_users (fst (after_change ?st'))" by (rule inv_users_after_change)
  with u reg show ?thesis by (simp add: disconnect_last)
qed

lemma inv_users_leave_class:
  assumes "inv_users st"
  shows "inv_users (fst (leave_class s now st))"
proof (cases "map_of (users st) s")
  case None
  then show ?thesis using assms by (simp add: leave_class_def)
next
  case (Some u)
  from leave_class_after [OF Some, of now] obtain x where
    "leave_class s now st =
       after_change (updateUserStatus (name u) x now (clearUserNotificationTimeout (name u) st))"
    by blast
  then show ?thesis using assms
    by (auto intro!: inv_users_after_change intro: inv_users_cong [rotated 2])
qed

lemma inv_users_come_back:
  assumes "inv_users st"
  shows "inv_users (fst (come_back s now st))"
  using assms
  by (auto simp: come_back_after split: option.splits
      intro!: inv_users_after_change intro: inv_users_cong [rotated 2])

lemma inv_users_leave_queue:
  assumes "inv_users st"
  shows "inv_users (fst (leave_queue s now st))"
  using assms
  by (auto simp: leave_queue_after split: option.splits
      intro!: inv_users_after_change intro: inv_users_cong [rotated 2])

lemma inv_users_timers [simp]: "inv_users (st\<lparr>timers := ts\<rparr>) = inv_users st"
  by (simp add: inv_users_def)

lemma inv_users_timer_fires:
  assumes "inv_users st"
  shows "inv_users (fst (timer_fires h now st))"
  using assms
  by (auto simp: timer_fires_def timeout_callback_after split: option.splits
      intro!: inv_users_after_change intro: inv_users_cong [rotated 2])

lemma inv_users_step:
  assumes "inv_registry st" and "inv_users st"
  shows "inv_users (fst (step ev now st))"
  using assms
  by (cases ev)
    (simp_all add: inv_users_login inv_users_disconnect inv_users_leave_class inv_users_come_back
      inv_users_leave_queue inv_users_timer_fires request_state_def)

lemma reachable_inv: "reachable st \<Longrightarrow> inv_registry st \<and> inv_users st"
proof (induction rule: reachable.induct)
  case reachable_initial
  show ?case by (simp add: inv_registry_def inv_users_def initial_def ids_def)
next
  case (reachable_step st ev now)
  then show ?case by (simp add: inv_registry_step inv_users_step)
qed

lemma reachable_run: "reachable st \<Longrightarrow> reachable (run evs st)"
proof (induction evs arbitrary: st)
  case Nil
  then show ?case by simp
next
  case (Cons e evs)
  obtain ev now where e: "e = (ev, now)" by (cases e)
  from Cons.prems have "reachable (fst (step ev now st))" by (rule reachable_step)
  then show ?case unfolding e by (simp add: Cons.IH)
qed

lemma registry_single:
  assumes "reachable st" and "map_of (nameToSockets st) k = Some sockets"
  shows "\<exists>s. sockets = [s]"
proof -
  from assms reachable_inv have "length sockets = 1" by (blast intro: inv_registry_map_of)
  then show ?thesis by (cases sockets) auto
qed

subsection \<open>Ownership of a name\<close>

lemma owns_cong: "nameToSockets st' = nameToSockets st \<Longrightarrow> owns st' k s = owns st k s"
  by (simp add: owns_def)

lemma owns_after_change: "owns (fst (after_change st)) k s = owns st k s"
  by (simp add: owns_def)

lemma login_success_owns:
  assumes "login s v now st = (st1, out1)" and "LoginSuccess s n \<in> set out1"
  shows "sanitizeName v = Some n \<and> owns st1 (toLowerCase n) s"
proof (cases "sanitizeName v")
  case None
  with assms show ?thesis by (auto simp: login_def)
next
  case (Some m)
  with assms show ?thesis
    by (auto simp: login_def Let_def owns_def broadcastState_def set_add_def update_conv' split_def
        split: option.splits if_splits)
qed

lemma owns_login:
  assumes "owns st k s"
  shows "owns (fst (login t v now st)) k s"
  using assms
  by (auto simp: login_def Let_def owns_def set_add_def update_conv' split: option.splits)

lemma removeAll_Nil_subset: "removeAll t xs = [] \<Longrightarrow> set xs \<subseteq> {t}"
  by (induction xs) (auto split: if_splits)

lemma owns_disconnect:
  assumes "owns st k s" and "t \<noteq> s"
  shows "owns (fst (disconnect t st)) k s"
proof (cases "map_of (users st) t")
  case None
  then show ?thesis using assms by (simp add: disconnect_after)
next
  case u: (Some u)
  show ?thesis
  proof (cases "map_of (nameToSockets st) (toLowerCase (name u))")
    case None
    with u show ?thesis using assms by (simp add: disconnect_after)
  next
    case (Some sockets0)
    show ?thesis
    proof (cases "removeAll t sockets0 = []")
      case True
      have "set sockets0 \<subseteq> {t}"
        using True by (rule removeAll_Nil_subset)
      with assms Some have "toLowerCase (name u) \<noteq> k"
        by (auto simp: owns_def)
      with assms have "owns (st\<lparr>nameToSockets := AList.delete (toLowerCase (name u)) (nameToSockets st),
                            users := AList.delete t (users st)\<rparr>) k s"
        by (simp add: owns_def delete_conv')
      with u Some True show ?thesis by (simp add: disconnect_last owns_after_change)
    next
      case False
      with u Some assms show ?thesis
        by (auto simp: disconnect_after owns_def update_conv' split: option.splits)
    qed
  qed
qed

lemma owns_step:
  assumes "owns st k s" and "ev \<noteq> Disconnect s"
  shows "owns (fst (step ev now st)) k s"
proof (cases ev)
  case (Login t v)
  then show ?thesis using assms by (simp add: owns_login)
next
  case (LeaveClass t)
  then show ?thesis using assms owns_cong [of "fst (leave_class t now st)" st] by simp
next
  case (ComeBack t)
  then show ?thesis using assms owns_cong [of "fst (come_back t now st)" st] by simp
next
  case (LeaveQueue t)
  then show ?thesis using assms owns_cong [of "fst (leave_queue t now st)" st] by simp
next
  case (RequestState t)
  then show ?thesis using assms by (simp add: request_state_def)
next
  case (Disconnect t)
  then show ?thesis using assms by (simp add: owns_disconnect)
next
  case (TimerFires h)
  then show ?thesis using assms owns_cong [of "fst (timer_fires h now st)" st] by simp
qed

lemma owns_run:
  assumes "owns st k s" and "\<forall>(ev, now) \<in> set evs. ev \<noteq> Disconnect s"
  shows "owns (run evs st) k s"
  using assms
proof (induction evs arbitrary: st)
  case Nil
  then show ?case by simp
next
  case (Cons e evs)
  obtain ev now where e: "e = (ev, now)" by (cases e)
  with Cons.prems have "owns (fst (step ev now st)) k s" by (simp add: owns_step)
  with Cons.prems show ?case unfolding e by (simp add: Cons.IH)
qed

text \<open>
  C7. Socket \<open>s\<close> has logged in with success under a name, and no later event is its
  disconnect. Then a login of any other socket \<open>t\<close> under a name with the same
  lower-cased sanitized form is answered with the error \<open>Name already in use\<close> and
  leaves the server state as it is. So \<open>t\<close> gets the name only after \<open>s\<close> has
  disconnected.
\<close>

theorem name_in_use:
  assumes "reachable st"
    and "login s v1 now1 st = (st1, out1)"
    and "LoginSuccess s n1 \<in> set out1"
    and "\<forall>(ev, now) \<in> set evs. ev \<noteq> Disconnect s"
    and "t \<noteq> s"
    and "sanitizeName v2 = Some n2"
    and "toLowerCase n2 = toLowerCase n1"
  shows "login t v2 now2 (run evs st1) = (run evs st1, [LoginError t ''Name already in use''])"
proof -
  from assms(2,3) have "owns st1 (toLowerCase n1) s" by (simp add: login_success_owns)
  then have o: "owns (run evs st1) (toLowerCase n2) s"
    using assms(4,7) by (simp add: owns_run)
  have "reachable st1"
    using reachable_step [OF assms(1), of "Login s v1" now1] assms(2) by simp
  then have r: "reachable (run evs st1)" by (rule reachable_run)
  from o obtain sockets where m: "map_of (nameToSockets (run evs st1)) (toLowerCase n2) = Some sockets"
    and "s \<in> set sockets"
    by (auto simp: owns_def split: option.splits)
  with registry_single [OF r m] have "sockets = [s]" by auto
  with m assms(5,6) show ?thesis
    by (simp add: login_def Let_def)
qed

theorem name_in_use_witness:
  "login 6 (JString ''<alice>'') 20 (run scenario initial) =
     (run scenario initial, [LoginError 6 ''Name already in use''])"
proof -
  have 1: "reachable (run (take 4 scenario) initial)"
    by (rule reachable_run [OF reachable_initial])
  have 2: "login 5 (JString ''Alice'') 5 (run (take 4 scenario) initial)
             = (run (take 5 scenario) initial,
                [LoginSuccess 5 ''Alice'', StateUpdate [] []])"
    by code_simp
  have 3: "LoginSuccess 5 ''Alice'' \<in> set [LoginSuccess 5 ''Alice'', StateUpdate [] []]"
    by simp
  have 4: "\<forall>(ev, now) \<in> set (drop 5 scenario). ev \<noteq> Disconnect 5"
    by code_simp
  have 5: "(6::nat) \<noteq> 5" by simp
  have 6: "sanitizeName (JString ''<alice>'') = Some ''alice''" by code_simp
  have 7: "toLowerCase ''alice'' = toLowerCase ''Alice''" by code_simp
  have 8: "run (drop 5 scenario) (run (take 5 scenario) initial) = run scenario initial"
    by code_simp
  from name_in_use [OF 1 2 3 4 5 6 7, of 20] show ?thesis
    unfolding 8 .
qed

subsection \<open>Repeated login\<close>

text \<open>
  C8. A socket that is already in the socket set of a lower-cased name and sends login
  again with a name of that key gets \<open>login_success\<close> and the broadcast, never an error.
  The registry and the timers stay as they are, and the only change to \<open>users\<close> is a new
  idle record with the current time at the end, when the socket had none; the keys of
  \<open>users\<close> stay distinct.
\<close>

theorem login_idempotent:
  assumes "map_of (nameToSockets st) (toLowerCase n) = Some sockets"
    and "socket \<in> set sockets"
    and "sanitizeName v = Some n"
  shows "\<exists>st'. login socket v now st =
           (st', [LoginSuccess socket n, StateUpdate (fst (getState st')) (snd (getState st'))])
         \<and> nameToSockets st' = nameToSockets st
         \<and> timers st' = timers st
         \<and> nextHandle st' = nextHandle st
         \<and> users st' =
             (if map_of (users st) socket = None
              then users st @ [(socket, \<lparr>name = n, status = Idle, joinedAt = now, notificationTimeout = None\<rparr>)]
              else users st)
         \<and> (distinct (map fst (users st)) \<longrightarrow> distinct (map fst (users st')))"
proof (cases "map_of (users st) socket")
  case None
  then have "socket \<notin> fst ` set (users st)"
    by (simp add: map_of_eq_None_iff)
  with None assms show ?thesis
    by (simp add: login_def Let_def broadcastState_def update_absent split: prod.splits)
next
  case (Some u)
  with assms show ?thesis
    by (simp add: login_def Let_def broadcastState_def split: prod.splits)
qed

theorem login_idempotent_witness:
  "login 5 (JString ''alice'') 20 (run scenario initial) =
     (run scenario initial,
      [LoginSuccess 5 ''alice'', StateUpdate [(''a'', 11), (''b'', 12), (''c'', 13)] [(''Alice'', 15)]])"
proof -
  have 1: "map_of (nameToSockets (run scenario initial)) (toLowerCase ''alice'') = Some [5]"
    by code_simp
  have 2: "(5::nat) \<in> set [5]" by simp
  have 3: "sanitizeName (JString ''alice'') = Some ''alice''" by code_simp
  have 4: "map_of (users (run scenario initial)) 5 \<noteq> None" by code_simp
  have 5: "getState (run scenario initial) = ([(''a'', 11), (''b'', 12), (''c'', 13)], [(''Alice'', 15)])"
    by code_simp
  obtain st' where a: "login 5 (JString ''alice'') 20 (run scenario initial) =
           (st', [LoginSuccess 5 ''alice'', StateUpdate (fst (getState st')) (snd (getState st'))])"
     and b: "nameToSockets st' = nameToSockets (run scenario initial)"
         "timers st' = timers (run scenario initial)"
         "nextHandle st' = nextHandle (run scenario initial)"
         "users st' = users (run scenario initial)"
    using login_idempotent [OF 1 2 3, of 20] 4 by auto
  from b have "st' = run scenario initial" by simp
  with a 5 show ?thesis by simp
qed

subsection \<open>One socket per name\<close>

lemma same_key_same_socket:
  assumes "inv_users st" and "map_of (users st) s = Some u" and "map_of (users st) t = Some w"
    and "toLowerCase (name u) = toLowerCase (name w)"
  shows "s = t"
  using inv_users_map_of [OF assms(1,2)] inv_users_map_of [OF assms(1,3)] assms(4) by simp

lemma login_cases:
  assumes "inv_registry st" and "sanitizeName v = Some n"
  shows "(map_of (nameToSockets st) (toLowerCase n) = None
          \<and> nameToSockets (fst (login socket v now st)) = nameToSockets st @ [(toLowerCase n, [socket])]
          \<and> LoginSuccess socket n \<in> set (snd (login socket v now st)))
       \<or> (map_of (nameToSockets st) (toLowerCase n) = Some [socket]
          \<and> nameToSockets (fst (login socket v now st)) = nameToSockets st
          \<and> LoginSuccess socket n \<in> set (snd (login socket v now st)))
       \<or> (\<exists>s'. s' \<noteq> socket \<and> map_of (nameToSockets st) (toLowerCase n) = Some [s']
          \<and> login socket v now st = (st, [LoginError socket ''Name already in use'']))"
proof (cases "map_of (nameToSockets st) (toLowerCase n)")
  case None
  with assms(2) show ?thesis
    by (simp add: login_def Let_def set_add_def update_absent)
next
  case (Some sockets)
  then have "length sockets = 1" using assms(1) by (rule inv_registry_map_of [rotated])
  then obtain s' where "sockets = [s']" by (cases sockets) auto
  with Some assms(2) show ?thesis
    by (cases "s' = socket") (simp_all add: login_def Let_def)
qed

text \<open>
  C10. In every reachable state the keys of the registry are distinct and the socket set
  of every key has exactly one socket, so two user records with the same lower-cased name
  belong to the same socket. A login with a valid name creates a new entry with the socket
  alone, or finds the socket already bound and succeeds without touching the registry, or
  finds another socket bound and fails with \<open>Name already in use\<close>; it never adds a second
  socket to an entry.
\<close>

theorem registry_singletons:
  assumes "reachable st"
  shows "distinct (map fst (nameToSockets st))
       \<and> (\<forall>(k, sockets) \<in> set (nameToSockets st). \<exists>s. sockets = [s])
       \<and> (\<forall>s t u w. map_of (users st) s = Some u \<and> map_of (users st) t = Some w
             \<and> toLowerCase (name u) = toLowerCase (name w) \<longrightarrow> s = t)
       \<and> (\<forall>socket v now n. sanitizeName v = Some n \<longrightarrow>
             (map_of (nameToSockets st) (toLowerCase n) = None
              \<and> nameToSockets (fst (login socket v now st)) = nameToSockets st @ [(toLowerCase n, [socket])]
              \<and> LoginSuccess socket n \<in> set (snd (login socket v now st)))
           \<or> (map_of (nameToSockets st) (toLowerCase n) = Some [socket]
              \<and> nameToSockets (fst (login socket v now st)) = nameToSockets st
              \<and> LoginSuccess socket n \<in> set (snd (login socket v now st)))
           \<or> (\<exists>s'. s' \<noteq> socket \<and> map_of (nameToSockets st) (toLowerCase n) = Some [s']
              \<and> login socket v now st = (st, [LoginError socket ''Name already in use''])))"
proof -
  from assms have reg: "inv_registry st" and us: "inv_users st"
    by (simp_all add: reachable_inv)
  have 1: "distinct (map fst (nameToSockets st))"
    using reg by (simp add: inv_registry_def)
  have 2: "\<forall>(k, sockets) \<in> set (nameToSockets st). \<exists>s. sockets = [s]"
  proof (clarify)
    fix k sockets
    assume "(k, sockets) \<in> set (nameToSockets st)"
    with reg have "length sockets = 1" by (auto simp: inv_registry_def)
    then show "\<exists>s. sockets = [s]" by (cases sockets) auto
  qed
  have 3: "\<forall>s t u w. map_of (users st) s = Some u \<and> map_of (users st) t = Some w
             \<and> toLowerCase (name u) = toLowerCase (name w) \<longrightarrow> s = t"
    using same_key_same_socket [OF us] by blast
  from 1 2 3 login_cases [OF reg] show ?thesis by blast
qed

theorem registry_singletons_witness:
  "reachable (run scenario initial)
   \<and> distinct (map fst (nameToSockets (run scenario initial)))
   \<and> nameToSockets (run scenario initial)
       = [(''a'', [1]), (''b'', [2]), (''c'', [3]), (''d'', [4]), (''alice'', [5])]
   \<and> nameToSockets (fst (login 6 (JString ''Eve'') 20 (run scenario initial)))
       = nameToSockets (run scenario initial) @ [(''eve'', [6])]"
proof -
  have r: "reachable (run scenario initial)"
    by (rule reachable_run [OF reachable_initial])
  have n: "nameToSockets (run scenario initial)
       = [(''a'', [1]), (''b'', [2]), (''c'', [3]), (''d'', [4]), (''alice'', [5])]"
    by code_simp
  have s: "sanitizeName (JString ''Eve'') = Some ''Eve''" by code_simp
  have k: "toLowerCase ''Eve'' = ''eve''" by code_simp
  have m: "map_of (nameToSockets (run scenario initial)) ''eve'' = None"
    unfolding n by simp
  from registry_singletons [OF r]
  have d: "distinct (map fst (nameToSockets (run scenario initial)))"
    and l: "\<forall>socket v now n. sanitizeName v = Some n \<longrightarrow>
             (map_of (nameToSockets (run scenario initial)) (toLowerCase n) = None
              \<and> nameToSockets (fst (login socket v now (run scenario initial)))
                  = nameToSockets (run scenario initial) @ [(toLowerCase n, [socket])]
              \<and> LoginSuccess socket n \<in> set (snd (login socket v now (run scenario initial))))
           \<or> (map_of (nameToSockets (run scenario initial)) (toLowerCase n) = Some [socket]
              \<and> nameToSockets (fst (login socket v now (run scenario initial)))
                  = nameToSockets (run scenario initial)
              \<and> LoginSuccess socket n \<in> set (snd (login socket v now (run scenario initial))))
           \<or> (\<exists>s'. s' \<noteq> socket \<and> map_of (nameToSockets (run scenario initial)) (toLowerCase n) = Some [s']
              \<and> login socket v now (run scenario initial)
                  = (run scenario initial, [LoginError socket ''Name already in use'']))"
    by blast+
  from l s have "nameToSockets (fst (login 6 (JString ''Eve'') 20 (run scenario initial)))
       = nameToSockets (run scenario initial) @ [(''eve'', [6])]"
    using m k by (metis option.distinct(1))
  with r d n show ?thesis by simp
qed

subsection \<open>The projection reads name, status and joinedAt only\<close>

lemma getState_loop_view:
  "view us' = view us \<Longrightarrow> getState_loop us' p out q = getState_loop us p out q"
proof (induction us arbitrary: us' p out q)
  case Nil
  then show ?case by (simp add: view_def)
next
  case (Cons a us)
  then obtain a' rest where us': "us' = a' # rest" and v: "view rest = view us"
    and h: "(name (snd a'), status (snd a'), joinedAt (snd a')) = (name (snd a), status (snd a), joinedAt (snd a))"
    by (cases us') (auto simp: view_def split_def)
  obtain s u where a: "a = (s, u)" by (cases a)
  obtain s' u' where a': "a' = (s', u')" by (cases a')
  from h show ?case unfolding us' a a'
    by (simp add: Let_def Cons.IH [OF v])
qed

lemma getState_view: "view (users st') = view (users st) \<Longrightarrow> getState st' = getState st"
  using getState_loop_view [of "users st'" "users st" "[]" "[]" "[]"] by (simp add: getState_def)

lemma view_update_same:
  "map_of al k = Some u \<Longrightarrow> name v = name u \<Longrightarrow> status v = status u \<Longrightarrow> joinedAt v = joinedAt u
     \<Longrightarrow> view (AList.update k v al) = view al"
proof (induction al)
  case Nil
  then show ?case by simp
next
  case (Cons a al)
  obtain k' x where a: "a = (k', x)" by (cases a)
  show ?case
  proof (cases "k' = k")
    case True
    with Cons.prems a show ?thesis by (simp add: view_def)
  next
    case False
    with Cons a show ?thesis by (simp add: view_def)
  qed
qed

lemma view_clearUser [simp]: "view (users (clearUserNotificationTimeout nm st)) = view (users st)"
  by (simp add: clearUserNotificationTimeout_def view_update_same split: option.splits)

lemma view_clear_loop [simp]: "view (users (clear_loop q st)) = view (users st)"
  by (induction q arbitrary: st) simp_all

lemma view_notify_one [simp]: "view (users (fst (notify_one e acc))) = view (users (fst acc))"
  by (cases acc) (simp add: notify_one_def Let_def view_update_same split: option.splits)

lemma view_notify_loop [simp]: "view (users (fst (notify_loop q acc))) = view (users (fst acc))"
  by (induction q arbitrary: acc) simp_all

lemma view_notifyNextInQueue [simp]: "view (users (fst (notifyNextInQueue st))) = view (users st)"
  by (simp add: notifyNextInQueue_def Let_def split: prod.splits)

lemma getState_notifyNextInQueue [simp]: "getState (fst (notifyNextInQueue st)) = getState st"
  by (rule getState_view) simp

lemma getState_after_change [simp]: "getState (fst (after_change st)) = getState st"
  by (simp add: after_change_def)

lemma getState_clearUser [simp]: "getState (clearUserNotificationTimeout nm st) = getState st"
  by (rule getState_view) simp

lemma getState_timers [simp]: "getState (st\<lparr>timers := ts\<rparr>) = getState st"
  by (simp add: getState_def)

lemma getState_nameToSockets [simp]: "getState (st\<lparr>nameToSockets := nts\<rparr>) = getState st"
  by (simp add: getState_def)

subsection \<open>What the notifier emits\<close>

lemma notify_one_out:
  "\<exists>ss. snd (notify_one e acc) = snd acc @ map YourTurn ss"
  by (cases acc) (auto simp: notify_one_def Let_def split: option.splits intro: exI [of _ "[]"])

lemma notify_loop_out:
  "\<exists>ss. snd (notify_loop q acc) = snd acc @ map YourTurn ss"
proof (induction q arbitrary: acc)
  case Nil
  show ?case by (auto intro: exI [of _ "[]"])
next
  case (Cons e q)
  from Cons.IH [of "notify_one e acc"] obtain ss where
    1: "snd (notify_loop q (notify_one e acc)) = snd (notify_one e acc) @ map YourTurn ss" ..
  from notify_one_out [of e acc] obtain ss' where
    2: "snd (notify_one e acc) = snd acc @ map YourTurn ss'" ..
  from 1 2 have "snd (notify_loop (e # q) acc) = snd acc @ map YourTurn (ss' @ ss)" by simp
  then show ?case ..
qed

lemma notifyNextInQueue_out: "\<exists>ss. snd (notifyNextInQueue st) = map YourTurn ss"
proof -
  obtain outside queue where g: "getState st = (outside, queue)" by (cases "getState st")
  show ?thesis
  proof (cases "max 0 (MAX_OUTSIDE - int (length outside)) \<le> 0 \<or> length queue = 0")
    case True
    with g show ?thesis by (auto simp: notifyNextInQueue_def Let_def intro: exI [of _ "[]"])
  next
    case False
    from notify_loop_out [of "take (nat (min (max 0 (MAX_OUTSIDE - int (length outside))) (int (length queue)))) queue"
        "(clear_loop queue st, [])"]
    show ?thesis using g False by (simp add: notifyNextInQueue_def Let_def)
  qed
qed

lemma after_change_out:
  "\<exists>ss. snd (after_change st) =
     StateUpdate (fst (getState (fst (after_change st)))) (snd (getState (fst (after_change st))))
       # map YourTurn ss"
proof -
  from notifyNextInQueue_out [of st] obtain ss where "snd (notifyNextInQueue st) = map YourTurn ss" ..
  then have "snd (after_change st) = StateUpdate (fst (getState st)) (snd (getState st)) # map YourTurn ss"
    by (simp add: after_change_def broadcastState_def split_def)
  then show ?thesis by auto
qed

lemma ordered_after_change:
  "ordered_output (fst (after_change st)) (map QueueTimeout timed_out @ snd (after_change st))"
proof -
  from notifyNextInQueue_out [of st] obtain ss where n: "snd (notifyNextInQueue st) = map YourTurn ss" ..
  have "fst (after_change st) = fst (notifyNextInQueue st)"
    by (simp add: after_change_def)
  moreover have "map QueueTimeout timed_out @ snd (after_change st) =
      map QueueTimeout timed_out
        @ [StateUpdate (fst (getState (fst (after_change st)))) (snd (getState (fst (after_change st))))]
        @ map YourTurn ss"
    using n by (simp add: after_change_def broadcastState_def split_def)
  ultimately show ?thesis
    unfolding ordered_output_def using n by blast
qed

lemma ordered_after_change_plain:
  "ordered_output (fst (after_change st)) (snd (after_change st))"
  using ordered_after_change [of st "[]"] by simp

lemma ignored_same: "ignored st st []"
  by (simp add: ignored_def)

lemma effect_leave_class:
  "takes_effect (LeaveClass s) st \<Longrightarrow>
     ordered_output (fst (leave_class s now st)) (snd (leave_class s now st))"
proof -
  assume "takes_effect (LeaveClass s) st"
  then obtain u where u: "map_of (users st) s = Some u" by auto
  from leave_class_after [OF u, of now] obtain x where
    "leave_class s now st =
       after_change (updateUserStatus (name u) x now (clearUserNotificationTimeout (name u) st))"
    by blast
  then show ?thesis by (simp add: ordered_after_change_plain)
qed

lemma effect_come_back:
  "takes_effect (ComeBack s) st \<Longrightarrow>
     ordered_output (fst (come_back s now st)) (snd (come_back s now st))"
  by (auto simp: come_back_after ordered_after_change_plain split: option.splits)

lemma effect_leave_queue:
  "takes_effect (LeaveQueue s) st \<Longrightarrow>
     ordered_output (fst (leave_queue s now st)) (snd (leave_queue s now st))"
  by (auto simp: leave_queue_after ordered_after_change_plain split: option.splits)

lemma effect_disconnect:
  "takes_effect (Disconnect s) st \<Longrightarrow>
     ordered_output (fst (disconnect s st)) (snd (disconnect s st))"
  by (auto simp: disconnect_after ordered_after_change_plain split: option.splits)

lemma getUserByName_timers [simp]:
  "getUserByName nm (st\<lparr>timers := ts\<rparr>) = getUserByName nm st"
  by (simp add: getUserByName_def userSocketByName_def split: option.splits list.splits)

lemma effect_timer_fires:
  assumes "takes_effect (TimerFires h) st"
  shows "ordered_output (fst (timer_fires h now st)) (snd (timer_fires h now st))"
proof -
  from assms obtain t u where t: "find (\<lambda>t. handle t = h) (timers st) = Some t"
    and u: "getUserByName (target t) st = Some u" "status u = Queue"
    by (auto split: option.splits)
  let ?st0 = "st\<lparr>timers := clearTimeout h (timers st)\<rparr>"
  let ?mid = "updateUserStatus (target t) Idle now ?st0"
  have "timer_fires h now st =
      (fst (after_change ?mid), map QueueTimeout (getSocketsByName (target t) ?st0) @ snd (after_change ?mid))"
    using t u by (simp add: timer_fires_def timeout_callback_after)
  then show ?thesis by (simp add: ordered_after_change)
qed

lemma ignored_step:
  assumes "inv_users st" and "state_changing ev" and "\<not> takes_effect ev st"
  shows "ignored st (fst (step ev now st)) (snd (step ev now st))"
proof (cases ev)
  case (Login s v)
  with assms(2) show ?thesis by simp
next
  case (RequestState s)
  with assms(2) show ?thesis by simp
next
  case (LeaveClass s)
  with assms(3) show ?thesis by (simp add: leave_class_def ignored_same)
next
  case (ComeBack s)
  with assms(3) show ?thesis
    by (auto simp: come_back_after ignored_same split: option.splits)
next
  case (LeaveQueue s)
  with assms(3) show ?thesis
    by (auto simp: leave_queue_after ignored_same split: option.splits)
next
  case (Disconnect s)
  show ?thesis
  proof (cases "map_of (users st) s")
    case None
    with Disconnect show ?thesis by (simp add: disconnect_after ignored_same)
  next
    case (Some u)
    from inv_users_map_of [OF assms(1) Some] Some Disconnect assms(3)
    show ?thesis by simp
  qed
next
  case (TimerFires h)
  show ?thesis
  proof (cases "find (\<lambda>t. handle t = h) (timers st)")
    case None
    with TimerFires show ?thesis by (simp add: timer_fires_def ignored_same)
  next
    case (Some t)
    with TimerFires assms(3) show ?thesis
      by (auto simp: timer_fires_def timeout_callback_after ignored_def clearTimeout_def
          split: option.splits)
  qed
qed

lemma effect_step:
  assumes "takes_effect ev st"
  shows "ordered_output (fst (step ev now st)) (snd (step ev now st))"
  using assms
  by (cases ev)
    (simp_all add: effect_leave_class effect_come_back effect_leave_queue effect_disconnect
      effect_timer_fires)

text \<open>
  C9. \<open>leave_class\<close>, \<open>come_back\<close>, \<open>leave_queue\<close>, a disconnect or a firing claim timer
  happens in a reachable state. When the event passes the guard of its handler (for a
  disconnect: the last socket of the name goes), the output is the \<open>queue_timeout\<close>
  signals of the event, then the \<open>state_update\<close> with the projection of the state the
  event leaves behind, then the output of the notifier pass that produces this state,
  which is \<open>your_turn\<close> signals only: the broadcast is sent, and every \<open>your_turn\<close> comes
  after it. When the event does not pass the guard, nothing is sent, and records,
  registry and handle counter stay as they are.
\<close>

theorem broadcast_before_notify:
  assumes "reachable st" and "state_changing ev" and "step ev now st = (st', out)"
  shows "(takes_effect ev st \<longrightarrow>
            (\<exists>mid timed_out notified.
               st' = fst (notifyNextInQueue mid)
             \<and> snd (notifyNextInQueue mid) = map YourTurn notified
             \<and> out = map QueueTimeout timed_out
                        @ [StateUpdate (fst (getState st')) (snd (getState st'))]
                        @ map YourTurn notified))
       \<and> (\<not> takes_effect ev st \<longrightarrow>
            out = [] \<and> users st' = users st \<and> nameToSockets st' = nameToSockets st
          \<and> nextHandle st' = nextHandle st \<and> set (timers st') \<subseteq> set (timers st))"
proof (rule conjI; rule impI)
  assume "takes_effect ev st"
  from effect_step [OF this, of now] assms(3)
  show "\<exists>mid timed_out notified.
               st' = fst (notifyNextInQueue mid)
             \<and> snd (notifyNextInQueue mid) = map YourTurn notified
             \<and> out = map QueueTimeout timed_out
                        @ [StateUpdate (fst (getState st')) (snd (getState st'))]
                        @ map YourTurn notified"
    by (simp add: ordered_output_def)
next
  assume n: "\<not> takes_effect ev st"
  from assms(1) have "inv_users st" by (simp add: reachable_inv)
  from ignored_step [OF this assms(2) n, of now] assms(3)
  show "out = [] \<and> users st' = users st \<and> nameToSockets st' = nameToSockets st
          \<and> nextHandle st' = nextHandle st \<and> set (timers st') \<subseteq> set (timers st)"
    by (simp add: ignored_def)
qed

theorem broadcast_before_notify_witness:
  "reachable (run (take 10 scenario) initial)
   \<and> takes_effect (ComeBack 4) (run (take 10 scenario) initial)
   \<and> step (ComeBack 4) 16 (run (take 10 scenario) initial) =
       (run scenario initial,
        [StateUpdate (fst (getState (run scenario initial))) (snd (getState (run scenario initial))),
         YourTurn 5])
   \<and> \<not> takes_effect (ComeBack 5) (run (take 10 scenario) initial)
   \<and> step (ComeBack 5) 16 (run (take 10 scenario) initial) = (run (take 10 scenario) initial, [])"
proof -
  let ?S = "run (take 10 scenario) initial"
  have r: "reachable ?S" by (rule reachable_run [OF reachable_initial])
  have 1: "state_changing (ComeBack 4)" "state_changing (ComeBack 5)" by simp_all
  have e: "takes_effect (ComeBack 4) ?S" by code_simp
  have n: "\<not> takes_effect (ComeBack 5) ?S" by code_simp
  have 2: "step (ComeBack 4) 16 ?S =
     (run scenario initial,
      [StateUpdate [(''a'', 11), (''b'', 12), (''c'', 13)] [(''Alice'', 15)], YourTurn 5])"
    by code_simp
  from broadcast_before_notify [OF r 1(1) 2] e obtain timed_out notified where
    "[StateUpdate [(''a'', 11), (''b'', 12), (''c'', 13)] [(''Alice'', 15)], YourTurn 5] =
       map QueueTimeout timed_out
         @ [StateUpdate (fst (getState (run scenario initial))) (snd (getState (run scenario initial)))]
         @ map YourTurn notified"
    by blast
  then have "StateUpdate [(''a'', 11), (''b'', 12), (''c'', 13)] [(''Alice'', 15)]
      = StateUpdate (fst (getState (run scenario initial))) (snd (getState (run scenario initial)))"
    by (cases timed_out) auto
  with 2 have a: "step (ComeBack 4) 16 ?S =
       (run scenario initial,
        [StateUpdate (fst (getState (run scenario initial))) (snd (getState (run scenario initial))),
         YourTurn 5])"
    by simp
  obtain st' out where s5: "step (ComeBack 5) 16 ?S = (st', out)"
    by (cases "step (ComeBack 5) 16 ?S")
  from broadcast_before_notify [OF r 1(2) s5] n
  have "out = []" by blast
  moreover have "fst (step (ComeBack 5) 16 ?S) = ?S" by code_simp
  ultimately have b: "step (ComeBack 5) 16 ?S = (?S, [])" using s5 by simp
  from r e a n b show ?thesis by blast
qed

subsection \<open>The projection when lower-cased names are distinct\<close>

lemma getState_loop_distinct:
  assumes "distinct (map (\<lambda>p. toLowerCase (name (snd p))) us)"
    and "\<forall>p \<in> set us. toLowerCase (name (snd p)) \<notin> set processed"
  shows "getState_loop us processed out q =
           (out @ map ent (filter (has_status Outside) us), q @ map ent (filter (has_status Queue) us))"
  using assms
proof (induction us arbitrary: processed out q)
  case Nil
  show ?case by simp
next
  case (Cons a us)
  obtain s u where a: "a = (s, u)" by (cases a)
  have d: "distinct (map (\<lambda>p. toLowerCase (name (snd p))) us)"
    using Cons.prems(1) by simp
  have fresh: "\<forall>p \<in> set us. toLowerCase (name (snd p)) \<notin> set (toLowerCase (name u) # processed)"
    using Cons.prems a by force
  have notin: "toLowerCase (name u) \<notin> set processed"
    using Cons.prems(2) a by simp
  show ?case
    unfolding a using notin
    by (simp add: Let_def Cons.IH [OF d fresh] ent_def has_status_def)
qed

lemma inv_users_distinct_names:
  assumes "inv_users st"
  shows "distinct (map (\<lambda>p. toLowerCase (name (snd p))) (users st))"
proof -
  have d: "distinct (map fst (ids (users st)))"
    using assms by (simp add: inv_users_def)
  then have d2: "distinct (ids (users st))" by (rule distinct_map [THEN iffD1, THEN conjunct1])
  have "inj_on (\<lambda>p. toLowerCase (snd p)) (set (ids (users st)))"
  proof (rule inj_onI)
    fix x y
    assume x: "x \<in> set (ids (users st))" and y: "y \<in> set (ids (users st))"
      and eq: "toLowerCase (snd x) = toLowerCase (snd y)"
    obtain s nm where xx: "x = (s, nm)" by (cases x)
    obtain s' nm' where yy: "y = (s', nm')" by (cases y)
    from assms x xx have "map_of (nameToSockets st) (toLowerCase nm) = Some [s]"
      by (auto simp: inv_users_def)
    moreover from assms y yy have "map_of (nameToSockets st) (toLowerCase nm') = Some [s']"
      by (auto simp: inv_users_def)
    ultimately have "s = s'" using eq xx yy by simp
    with x y xx yy have "nm = nm'" using eq_key_imp_eq_value [OF d, of s nm nm'] by simp
    with \<open>s = s'\<close> xx yy show "x = y" by simp
  qed
  with d2 have "distinct (map (\<lambda>p. toLowerCase (snd p)) (ids (users st)))"
    by (simp add: distinct_map)
  moreover have "map (\<lambda>p. toLowerCase (snd p)) (ids (users st))
      = map (\<lambda>p. toLowerCase (name (snd p))) (users st)"
    by (simp add: ids_def split_def)
  ultimately show ?thesis by simp
qed

lemma getState_inv:
  assumes "inv_users st"
  shows "getState st =
           (sort_key snd (map ent (filter (has_status Outside) (users st))),
            sort_key snd (map ent (filter (has_status Queue) (users st))))"
  using getState_loop_distinct [OF inv_users_distinct_names [OF assms], of "[]" "[]" "[]"]
  by (simp add: getState_def)

lemma outside_count:
  "inv_users st \<Longrightarrow> length (fst (getState st)) = count_status Outside (users st)"
  by (simp add: getState_inv count_status_def)

lemma queue_count:
  "inv_users st \<Longrightarrow> length (snd (getState st)) = count_status Queue (users st)"
  by (simp add: getState_inv count_status_def)

subsection \<open>Counting records by status\<close>

lemma count_update:
  "map_of al k = Some old \<Longrightarrow>
     count_status x (AList.update k v al) + (if status old = x then 1 else 0)
       = count_status x al + (if status v = x then 1 else 0)"
proof (induction al)
  case Nil
  then show ?case by simp
next
  case (Cons a al)
  obtain k' y where a: "a = (k', y)" by (cases a)
  show ?case
  proof (cases "k' = k")
    case True
    with Cons.prems a show ?thesis by (simp add: count_status_def has_status_def)
  next
    case False
    with Cons a show ?thesis by (simp add: count_status_def has_status_def)
  qed
qed

lemma count_update_new:
  "map_of al k = None \<Longrightarrow>
     count_status x (AList.update k v al) = count_status x al + (if status v = x then 1 else 0)"
  by (simp add: update_absent count_status_def has_status_def)

lemma count_delete: "count_status x (AList.delete k al) \<le> count_status x al"
proof -
  have e: "filter (has_status x) (AList.delete k al) = filter (\<lambda>p. fst p \<noteq> k) (filter (has_status x) al)"
    by (induction al) auto
  show ?thesis unfolding count_status_def e by (rule length_filter_le)
qed

lemma has_status_eq: "has_status x = (\<lambda>p. status (snd p) = x)"
  by (simp add: fun_eq_iff has_status_def)

lemma count_view:
  assumes "view us' = view us"
  shows "count_status x us' = count_status x us"
proof -
  have v: "map (\<lambda>p. status (snd p)) zs = map (\<lambda>t. fst (snd t)) (view zs)" for zs
    by (simp add: view_def split_def)
  have c: "count_status x zs = length (filter (\<lambda>t. t = x) (map (\<lambda>p. status (snd p)) zs))" for zs
    by (simp add: count_status_def has_status_eq filter_map comp_def)
  show ?thesis unfolding c v assms ..
qed

lemma count_updateUserStatus_loop_le:
  "count_status Outside (updateUserStatus_loop sockets stat ts us)
     \<le> count_status Outside us + (if stat = Outside then length sockets else 0)"
proof (induction sockets arbitrary: us)
  case Nil
  show ?case by simp
next
  case (Cons s sockets)
  show ?case
  proof (cases "map_of us s")
    case None
    with Cons.IH [of us] show ?thesis by (simp split: if_splits)
  next
    case (Some u)
    let ?us = "AList.update s (u\<lparr>status := stat, joinedAt := ts\<rparr>) us"
    from count_update [OF Some, of Outside "u\<lparr>status := stat, joinedAt := ts\<rparr>"]
    have "count_status Outside ?us \<le> count_status Outside us + (if stat = Outside then 1 else 0)"
      by (simp split: if_splits)
    with Cons.IH [of ?us] Some show ?thesis by (simp split: if_splits)
  qed
qed

lemma count_updateUserStatus_other:
  "stat \<noteq> Outside \<Longrightarrow>
     count_status Outside (users (updateUserStatus nm stat ts st)) \<le> count_status Outside (users st)"
  using count_updateUserStatus_loop_le [of "getSocketsByName nm st" stat ts "users st"]
  by (simp add: updateUserStatus_def)

lemma getSocketsByName_inv:
  "inv_users st \<Longrightarrow> map_of (users st) s = Some u \<Longrightarrow> getSocketsByName (name u) st = [s]"
  by (simp add: getSocketsByName_def inv_users_map_of)

lemma getSocketsByName_le1: "inv_registry st \<Longrightarrow> length (getSocketsByName nm st) \<le> 1"
  by (auto simp: getSocketsByName_def split: option.splits dest: inv_registry_map_of)

lemma count_updateUserStatus_le1:
  assumes "inv_registry st"
  shows "count_status Outside (users (updateUserStatus nm stat ts st))
           \<le> count_status Outside (users st) + 1"
proof -
  have "count_status Outside (users (updateUserStatus nm stat ts st))
          \<le> count_status Outside (users st) + length (getSocketsByName nm st)"
    using count_updateUserStatus_loop_le [of "getSocketsByName nm st" stat ts "users st"]
    by (simp add: updateUserStatus_def split: if_splits)
  with getSocketsByName_le1 [OF assms, of nm] show ?thesis by simp
qed

lemma count_after_change [simp]:
  "count_status x (users (fst (after_change st))) = count_status x (users st)"
  by (rule count_view) (simp add: after_change_def)

lemma count_clearUser [simp]:
  "count_status x (users (clearUserNotificationTimeout nm st)) = count_status x (users st)"
  by (rule count_view) simp

subsection \<open>At most four outside\<close>

lemma count_login:
  "count_status Outside (users (fst (login s v now st))) \<le> count_status Outside (users st)"
proof (cases "sanitizeName v")
  case None
  then show ?thesis by (simp add: login_def)
next
  case (Some n)
  let ?fresh = "\<lparr>name = n, status = Idle, joinedAt = now, notificationTimeout = None\<rparr>"
  have "count_status Outside (AList.update s ?fresh (users st)) \<le> count_status Outside (users st)"
  proof (cases "map_of (users st) s")
    case None
    then show ?thesis by (simp add: count_update_new)
  next
    case (Some old)
    from count_update [OF Some, of Outside ?fresh] show ?thesis by (simp split: if_splits)
  qed
  with Some show ?thesis by (simp add: login_def Let_def)
qed

lemma count_leave_class:
  assumes "inv_registry st" and "inv_users st" and "count_status Outside (users st) \<le> 4"
  shows "count_status Outside (users (fst (leave_class s now st))) \<le> 4"
proof (cases "map_of (users st) s")
  case None
  then show ?thesis using assms by (simp add: leave_class_def)
next
  case (Some u)
  let ?st1 = "clearUserNotificationTimeout (name u) st"
  from leave_class_after [OF Some, of now] obtain x where
    eq: "leave_class s now st = after_change (updateUserStatus (name u) x now ?st1)"
    and x: "x = Outside \<longrightarrow> length (fst (getState st)) < 4"
    by blast
  have reg1: "inv_registry ?st1" using assms(1) by (rule inv_registry_cong [rotated]) simp
  show ?thesis
  proof (cases "x = Outside")
    case True
    with x assms(2) have "count_status Outside (users st) < 4" by (simp add: outside_count)
    moreover from count_updateUserStatus_le1 [OF reg1, of "name u" x now]
    have "count_status Outside (users (updateUserStatus (name u) x now ?st1))
            \<le> count_status Outside (users st) + 1"
      by simp
    ultimately show ?thesis unfolding eq by simp
  next
    case False
    from count_updateUserStatus_other [OF False, of "name u" now ?st1] assms(3)
    show ?thesis unfolding eq by simp
  qed
qed

lemma count_come_back:
  "count_status Outside (users (fst (come_back s now st))) \<le> count_status Outside (users st)"
  by (simp add: come_back_after count_updateUserStatus_other split: option.splits)

lemma count_leave_queue:
  "count_status Outside (users (fst (leave_queue s now st))) \<le> count_status Outside (users st)"
  using count_updateUserStatus_other [of Idle _ now "clearUserNotificationTimeout _ st"]
  by (simp add: leave_queue_after split: option.splits)

lemma count_timeout_callback:
  "count_status Outside (users (fst (timeout_callback nm now st))) \<le> count_status Outside (users st)"
  by (simp add: timeout_callback_after count_updateUserStatus_other split: option.splits)

lemma count_timer_fires:
  "count_status Outside (users (fst (timer_fires h now st))) \<le> count_status Outside (users st)"
  using count_timeout_callback [of _ now "st\<lparr>timers := clearTimeout h (timers st)\<rparr>"]
  by (simp add: timer_fires_def split: option.splits)

lemma count_disconnect:
  "count_status Outside (users (fst (disconnect s st))) \<le> count_status Outside (users st)"
  by (simp add: disconnect_after clearUser_deleted count_delete split: option.splits)

lemma count_step:
  assumes "inv_registry st" and "inv_users st" and "count_status Outside (users st) \<le> 4"
  shows "count_status Outside (users (fst (step ev now st))) \<le> 4"
proof (cases ev)
  case (Login s v)
  with count_login [of s v now st] assms(3) show ?thesis by simp
next
  case (LeaveClass s)
  with count_leave_class [OF assms] show ?thesis by simp
next
  case (ComeBack s)
  with count_come_back [of s now st] assms(3) show ?thesis by simp
next
  case (LeaveQueue s)
  with count_leave_queue [of s now st] assms(3) show ?thesis by simp
next
  case (RequestState s)
  with assms(3) show ?thesis by (simp add: request_state_def)
next
  case (Disconnect s)
  with count_disconnect [of s st] assms(3) show ?thesis by simp
next
  case (TimerFires h)
  with count_timer_fires [of h now st] assms(3) show ?thesis by simp
qed

lemma reachable_count: "reachable st \<Longrightarrow> count_status Outside (users st) \<le> 4"
proof (induction rule: reachable.induct)
  case reachable_initial
  show ?case by (simp add: initial_def count_status_def)
next
  case (reachable_step st ev now)
  then show ?case by (simp add: count_step reachable_inv)
qed

text \<open>
  C1. In every reachable state, whatever sequence of login, leave_class, come_back,
  leave_queue, request_state, disconnect and timer events led to it, the projected outside
  list has at most \<open>MAX_OUTSIDE = 4\<close> entries, and so it has after any further event.
\<close>

theorem outside_bounded:
  assumes "reachable st"
  shows "int (length (fst (getState st))) \<le> MAX_OUTSIDE
       \<and> int (length (fst (getState (fst (step ev now st))))) \<le> MAX_OUTSIDE"
proof -
  have *: "int (length (fst (getState st'))) \<le> MAX_OUTSIDE" if "reachable st'" for st'
    using that reachable_count [OF that] reachable_inv [OF that]
    by (simp add: outside_count MAX_OUTSIDE_def)
  from assms have "reachable (fst (step ev now st))" by (rule reachable_step)
  with assms show ?thesis by (simp add: *)
qed

theorem outside_bounded_witness:
  "reachable (run (take 9 scenario) initial)
   \<and> length (fst (getState (run (take 9 scenario) initial))) = 4
   \<and> int (length (fst (getState (fst (step (LeaveClass 5) 15 (run (take 9 scenario) initial)))))) \<le> MAX_OUTSIDE"
proof -
  have r: "reachable (run (take 9 scenario) initial)"
    by (rule reachable_run [OF reachable_initial])
  have l: "length (fst (getState (run (take 9 scenario) initial))) = 4"
    by code_simp
  from outside_bounded [OF r, of "LeaveClass 5" 15] r l show ?thesis by blast
qed

subsection \<open>Handles are below the next handle\<close>

lemma inv_handles_update:
  assumes "inv_handles st"
    and "\<forall>h. notificationTimeout v = Some h \<longrightarrow> h < nextHandle st"
    and "set ts \<subseteq> set (timers st)"
  shows "inv_handles (st\<lparr>timers := ts, users := AList.update k v (users st)\<rparr>)"
  using assms set_update_subset [of k v "users st"]
  unfolding inv_handles_def by fastforce

lemma inv_handles_users_update:
  assumes "inv_handles st"
    and "\<forall>h. notificationTimeout v = Some h \<longrightarrow> h < nextHandle st"
  shows "inv_handles (st\<lparr>users := AList.update k v (users st)\<rparr>)"
  using assms set_update_subset [of k v "users st"]
  unfolding inv_handles_def by fastforce

lemma inv_handles_map_of:
  "inv_handles st \<Longrightarrow> map_of (users st) s = Some u \<Longrightarrow> notificationTimeout u = Some h
     \<Longrightarrow> h < nextHandle st"
  unfolding inv_handles_def by (fastforce dest: map_of_SomeD)

lemma inv_handles_timers:
  "inv_handles st \<Longrightarrow> set ts \<subseteq> set (timers st) \<Longrightarrow> inv_handles (st\<lparr>timers := ts\<rparr>)"
  unfolding inv_handles_def by fastforce

lemma inv_handles_nameToSockets [simp]:
  "inv_handles (st\<lparr>nameToSockets := nts\<rparr>) = inv_handles st"
  by (simp add: inv_handles_def)

lemma inv_handles_delete:
  "inv_handles st \<Longrightarrow> inv_handles (st\<lparr>users := AList.delete k (users st)\<rparr>)"
  using set_delete_subset [of k "users st"] unfolding inv_handles_def by fastforce

lemma clearTimeout_subset: "set (clearTimeout h ts) \<subseteq> set ts"
  by (auto simp: clearTimeout_def)

lemma inv_handles_clearUser:
  assumes "inv_handles st"
  shows "inv_handles (clearUserNotificationTimeout nm st)"
proof (cases "userSocketByName nm st")
  case None
  then show ?thesis using assms by (simp add: clearUserNotificationTimeout_def)
next
  case (Some s)
  show ?thesis
  proof (cases "map_of (users st) s")
    case None
    with Some show ?thesis using assms by (simp add: clearUserNotificationTimeout_def)
  next
    case u: (Some u)
    show ?thesis
    proof (cases "notificationTimeout u")
      case None
      with Some u show ?thesis using assms by (simp add: clearUserNotificationTimeout_def)
    next
      case h: (Some h)
      have "inv_handles (st\<lparr>timers := clearTimeout h (timers st),
              users := AList.update s (u\<lparr>notificationTimeout := None\<rparr>) (users st)\<rparr>)"
        using assms by (rule inv_handles_update) (simp_all add: clearTimeout_subset)
      with Some u h show ?thesis by (simp add: clearUserNotificationTimeout_def)
    qed
  qed
qed

lemma inv_handles_updateUserStatus_loop:
  assumes "inv_handles (st\<lparr>users := us\<rparr>)"
  shows "inv_handles (st\<lparr>users := updateUserStatus_loop sockets stat ts us\<rparr>)"
  using assms
proof (induction sockets arbitrary: us)
  case Nil
  then show ?case by simp
next
  case (Cons s sockets)
  show ?case
  proof (cases "map_of us s")
    case None
    with Cons show ?thesis by simp
  next
    case (Some u)
    have "\<forall>h. notificationTimeout (u\<lparr>status := stat, joinedAt := ts\<rparr>) = Some h
            \<longrightarrow> h < nextHandle (st\<lparr>users := us\<rparr>)"
      using inv_handles_map_of [OF Cons.prems, of s u] Some by simp
    from inv_handles_users_update [OF Cons.prems this, of s]
    have "inv_handles (st\<lparr>users := AList.update s (u\<lparr>status := stat, joinedAt := ts\<rparr>) us\<rparr>)"
      by simp
    from Cons.IH [OF this] Some show ?thesis by simp
  qed
qed

lemma inv_handles_updateUserStatus:
  "inv_handles st \<Longrightarrow> inv_handles (updateUserStatus nm stat ts st)"
  using inv_handles_updateUserStatus_loop [where st = st and us = "users st"]
  by (simp add: updateUserStatus_def)

lemma inv_handles_clear_loop: "inv_handles st \<Longrightarrow> inv_handles (clear_loop q st)"
  by (induction q arbitrary: st) (simp_all add: inv_handles_clearUser)

lemma inv_handles_notify_one:
  assumes "inv_handles (fst acc)"
  shows "inv_handles (fst (notify_one e acc))"
proof -
  obtain st out where acc: "acc = (st, out)" by (cases acc)
  show ?thesis
  proof (cases "userSocketByName (fst e) st")
    case None
    with acc assms show ?thesis by (simp add: notify_one_def)
  next
    case (Some s)
    show ?thesis
    proof (cases "map_of (users st) s")
      case None
      with Some acc assms show ?thesis by (simp add: notify_one_def)
    next
      case u: (Some u)
      have "inv_handles (st\<lparr>timers := timers st @
                [\<lparr>handle = nextHandle st, delay = NOTIFICATION_TIMEOUT, target = fst e\<rparr>],
              nextHandle := Suc (nextHandle st),
              users := AList.update s (u\<lparr>notificationTimeout := Some (nextHandle st)\<rparr>) (users st)\<rparr>)"
        using assms acc set_update_subset [of s "u\<lparr>notificationTimeout := Some (nextHandle st)\<rparr>" "users st"]
        unfolding inv_handles_def by fastforce
      with Some u acc show ?thesis by (simp add: notify_one_def Let_def)
    qed
  qed
qed

lemma inv_handles_notify_loop:
  "inv_handles (fst acc) \<Longrightarrow> inv_handles (fst (notify_loop q acc))"
  by (induction q arbitrary: acc) (simp_all add: inv_handles_notify_one)

lemma inv_handles_notifyNextInQueue:
  assumes "inv_handles st"
  shows "inv_handles (fst (notifyNextInQueue st))"
proof -
  obtain outside queue where g: "getState st = (outside, queue)" by (cases "getState st")
  have 1: "inv_handles (clear_loop queue st)" using assms by (rule inv_handles_clear_loop)
  have 2: "inv_handles (fst (notify_loop q (clear_loop queue st, [])))" for q
    using 1 by (simp add: inv_handles_notify_loop)
  from g 1 2 show ?thesis by (simp add: notifyNextInQueue_def Let_def)
qed

lemma inv_handles_after_change: "inv_handles st \<Longrightarrow> inv_handles (fst (after_change st))"
  by (simp add: after_change_def inv_handles_notifyNextInQueue)

subsection \<open>The state the notifier runs on\<close>

lemma consistent_updateUserStatus_other:
  assumes "consistent st" and "stat \<noteq> Outside"
  shows "consistent (updateUserStatus nm stat ts st)"
proof -
  have "inv_registry (updateUserStatus nm stat ts st)"
    using assms(1) by (auto simp: consistent_def intro: inv_registry_cong [rotated])
  moreover have "inv_users (updateUserStatus nm stat ts st)"
    using assms(1) by (auto simp: consistent_def intro: inv_users_cong [rotated 2])
  moreover have "inv_handles (updateUserStatus nm stat ts st)"
    using assms(1) by (simp add: consistent_def inv_handles_updateUserStatus)
  moreover have "count_status Outside (users (updateUserStatus nm stat ts st)) \<le> 4"
    using count_updateUserStatus_other [OF assms(2), of nm ts st] assms(1)
    by (simp add: consistent_def)
  ultimately show ?thesis by (simp add: consistent_def)
qed

lemma consistent_updateUserStatus_room:
  assumes "consistent st" and "count_status Outside (users st) < 4"
  shows "consistent (updateUserStatus nm stat ts st)"
proof -
  from assms(1) have reg: "inv_registry st" by (simp add: consistent_def)
  have "inv_registry (updateUserStatus nm stat ts st)"
    using reg by (auto intro: inv_registry_cong [rotated])
  moreover have "inv_users (updateUserStatus nm stat ts st)"
    using assms(1) by (auto simp: consistent_def intro: inv_users_cong [rotated 2])
  moreover have "inv_handles (updateUserStatus nm stat ts st)"
    using assms(1) by (simp add: consistent_def inv_handles_updateUserStatus)
  moreover have "count_status Outside (users (updateUserStatus nm stat ts st)) \<le> 4"
    using count_updateUserStatus_le1 [OF reg, of nm stat ts] assms(2) by simp
  ultimately show ?thesis by (simp add: consistent_def)
qed

lemma consistent_clearUser:
  assumes "consistent st"
  shows "consistent (clearUserNotificationTimeout nm st)"
proof -
  have "inv_registry (clearUserNotificationTimeout nm st)"
    using assms by (auto simp: consistent_def intro: inv_registry_cong [rotated])
  moreover have "inv_users (clearUserNotificationTimeout nm st)"
    using assms by (auto simp: consistent_def intro: inv_users_cong [rotated 2])
  ultimately show ?thesis using assms
    by (simp add: consistent_def inv_handles_clearUser)
qed

lemma consistent_timers:
  assumes "consistent st" and "set ts \<subseteq> set (timers st)"
  shows "consistent (st\<lparr>timers := ts\<rparr>)"
  using assms by (simp add: consistent_def inv_handles_timers inv_registry_def)

lemma consistent_notifyNextInQueue:
  assumes "consistent st"
  shows "consistent (fst (notifyNextInQueue st))"
proof -
  have "inv_registry (fst (notifyNextInQueue st))"
    using assms by (auto simp: consistent_def intro: inv_registry_cong [rotated])
  moreover have "inv_users (fst (notifyNextInQueue st))"
    using assms by (auto simp: consistent_def intro: inv_users_cong [rotated 2])
  moreover have "count_status Outside (users (fst (notifyNextInQueue st))) = count_status Outside (users st)"
    by (rule count_view) simp
  ultimately show ?thesis using assms
    by (simp add: consistent_def inv_handles_notifyNextInQueue)
qed

lemma consistent_removed:
  assumes "consistent st" and "map_of (users st) s = Some u"
  shows "consistent (st\<lparr>nameToSockets := AList.delete (toLowerCase (name u)) (nameToSockets st),
                         users := AList.delete s (users st)\<rparr>)"
    (is "consistent ?st'")
proof -
  let ?k = "toLowerCase (name u)"
  from assms(1) have us: "inv_users st" and reg: "inv_registry st" and hs: "inv_handles st"
    and c: "count_status Outside (users st) \<le> 4"
    by (simp_all add: consistent_def)
  from us assms(2) have r: "map_of (nameToSockets st) ?k = Some [s]"
    by (rule inv_users_map_of)
  have "map_of (AList.delete ?k (nameToSockets st)) (toLowerCase nm) = Some [s']"
    if "(s', nm) \<in> set (ids (AList.delete s (users st)))" for s' nm
  proof -
    from that ids_delete_subset [of s "users st"]
    have in_old: "(s', nm) \<in> set (ids (users st))" and ne: "s' \<noteq> s" by auto
    from in_old us have *: "map_of (nameToSockets st) (toLowerCase nm) = Some [s']"
      by (auto simp: inv_users_def)
    with r ne have "toLowerCase nm \<noteq> ?k" by auto
    with * show ?thesis by (simp add: delete_conv')
  qed
  moreover have "distinct (map fst (AList.delete s (users st)))"
    using us by (simp add: inv_users_def distinct_delete)
  ultimately have 1: "inv_users ?st'" by (auto simp: inv_users_def)
  have 2: "inv_registry ?st'" using reg by (rule inv_registry_delete)
  have 3: "inv_handles ?st'" using inv_handles_delete [OF hs, of s] by (simp add: inv_handles_def)
  have 4: "count_status Outside (users ?st') \<le> 4"
    using count_delete [of Outside s "users st"] c by simp
  from 1 2 3 4 show ?thesis by (simp add: consistent_def)
qed

lemma leave_class_mid:
  assumes "consistent st" and "map_of (users st) s = Some u"
  shows "\<exists>x. x \<noteq> Idle
          \<and> consistent (updateUserStatus (name u) x now (clearUserNotificationTimeout (name u) st))
          \<and> leave_class s now st =
              after_change (updateUserStatus (name u) x now (clearUserNotificationTimeout (name u) st))"
proof -
  let ?st1 = "clearUserNotificationTimeout (name u) st"
  from leave_class_after [OF assms(2), of now] obtain x where
    eq: "leave_class s now st = after_change (updateUserStatus (name u) x now ?st1)"
    and ne: "x \<noteq> Idle"
    and x: "x = Outside \<longrightarrow> length (fst (getState st)) < 4"
    by blast
  have c1: "consistent ?st1" using assms(1) by (rule consistent_clearUser)
  have "consistent (updateUserStatus (name u) x now ?st1)"
  proof (cases "x = Outside")
    case True
    with x assms(1) have "count_status Outside (users ?st1) < 4"
      by (simp add: outside_count consistent_def)
    with c1 show ?thesis by (rule consistent_updateUserStatus_room)
  next
    case False
    with c1 show ?thesis by (rule consistent_updateUserStatus_other)
  qed
  with eq ne show ?thesis by blast
qed

text \<open>
  Every event either leaves the records and timers as they are, up to a record that is
  replaced by an idle one and timers that disappear, or it changes the state, broadcasts
  and runs the notifier on a consistent state.
\<close>

lemma step_cases:
  assumes "consistent st"
  shows "(quiet st (fst (step ev now st)) \<and> (\<forall>s. YourTurn s \<notin> set (snd (step ev now st))))
       \<or> (\<exists>mid timed_out. consistent mid
            \<and> step ev now st =
                (fst (notifyNextInQueue mid),
                 map QueueTimeout timed_out @ broadcastState mid @ snd (notifyNextInQueue mid)))"
proof (cases ev)
  case (Login s v)
  have "quiet st (fst (login s v now st))"
  proof (cases "sanitizeName v")
    case None
    then show ?thesis by (simp add: login_def quiet_def)
  next
    case (Some n)
    have "quiet st (st\<lparr>nameToSockets := nts,
        users := AList.update s \<lparr>name = n, status = Idle, joinedAt = now, notificationTimeout = None\<rparr> (users st)\<rparr>)"
      for nts
      unfolding quiet_def
      by (auto intro!: exI [of _ s]
          exI [of _ "\<lparr>name = n, status = Idle, joinedAt = now, notificationTimeout = None\<rparr>"])
    from this [of "nameToSockets st"] this Some show ?thesis
      by (auto simp: login_def Let_def quiet_def)
  qed
  moreover have "YourTurn t \<notin> set (snd (login s v now st))" for t
    by (cases "sanitizeName v")
      (auto simp: login_def Let_def broadcastState_def split_def)
  ultimately show ?thesis using Login by simp
next
  case (RequestState s)
  then show ?thesis
    by (auto simp: request_state_def quiet_def broadcastState_def split_def split: option.splits)
next
  case (LeaveClass s)
  show ?thesis
  proof (cases "map_of (users st) s")
    case None
    with LeaveClass show ?thesis by (simp add: leave_class_def quiet_def)
  next
    case (Some u)
    from leave_class_mid [OF assms Some, of now] obtain x where
      c: "consistent (updateUserStatus (name u) x now (clearUserNotificationTimeout (name u) st))"
      and eq: "leave_class s now st =
              after_change (updateUserStatus (name u) x now (clearUserNotificationTimeout (name u) st))"
      by blast
    have "step ev now st =
        (fst (notifyNextInQueue (updateUserStatus (name u) x now (clearUserNotificationTimeout (name u) st))),
         map QueueTimeout [] @ broadcastState (updateUserStatus (name u) x now (clearUserNotificationTimeout (name u) st))
           @ snd (notifyNextInQueue (updateUserStatus (name u) x now (clearUserNotificationTimeout (name u) st))))"
      using LeaveClass eq by (simp add: after_change_def)
    with c show ?thesis by blast
  qed
next
  case (ComeBack s)
  show ?thesis
  proof (cases "\<exists>u. map_of (users st) s = Some u \<and> status u = Outside")
    case False
    with ComeBack show ?thesis
      by (auto simp: come_back_after quiet_def split: option.splits)
  next
    case True
    then obtain u where u: "map_of (users st) s = Some u" "status u = Outside" by blast
    have c: "consistent (updateUserStatus (name u) Idle now st)"
      using assms by (rule consistent_updateUserStatus_other) simp
    have "step ev now st =
        (fst (notifyNextInQueue (updateUserStatus (name u) Idle now st)),
         map QueueTimeout [] @ broadcastState (updateUserStatus (name u) Idle now st)
           @ snd (notifyNextInQueue (updateUserStatus (name u) Idle now st)))"
      using ComeBack u by (simp add: come_back_after after_change_def)
    with c show ?thesis by blast
  qed
next
  case (LeaveQueue s)
  show ?thesis
  proof (cases "\<exists>u. map_of (users st) s = Some u \<and> status u = Queue")
    case False
    with LeaveQueue show ?thesis
      by (auto simp: leave_queue_after quiet_def split: option.splits)
  next
    case True
    then obtain u where u: "map_of (users st) s = Some u" "status u = Queue" by blast
    let ?mid = "updateUserStatus (name u) Idle now (clearUserNotificationTimeout (name u) st)"
    have c: "consistent ?mid"
      using consistent_clearUser [OF assms] by (rule consistent_updateUserStatus_other) simp
    have "step ev now st =
        (fst (notifyNextInQueue ?mid),
         map QueueTimeout [] @ broadcastState ?mid @ snd (notifyNextInQueue ?mid))"
      using LeaveQueue u by (simp add: leave_queue_after after_change_def)
    with c show ?thesis by blast
  qed
next
  case (Disconnect s)
  show ?thesis
  proof (cases "map_of (users st) s")
    case None
    with Disconnect show ?thesis by (simp add: disconnect_after quiet_def)
  next
    case (Some u)
    let ?mid = "st\<lparr>nameToSockets := AList.delete (toLowerCase (name u)) (nameToSockets st),
                    users := AList.delete s (users st)\<rparr>"
    from assms have "inv_users st" by (simp add: consistent_def)
    from this Some have r: "map_of (nameToSockets st) (toLowerCase (name u)) = Some [s]"
      by (rule inv_users_map_of)
    have c: "consistent ?mid" using assms Some by (rule consistent_removed)
    have "disconnect s st = after_change ?mid"
      using Some r by (simp add: disconnect_last)
    then have "step ev now st =
        (fst (notifyNextInQueue ?mid),
         map QueueTimeout [] @ broadcastState ?mid @ snd (notifyNextInQueue ?mid))"
      using Disconnect by (simp add: after_change_def)
    with c show ?thesis by blast
  qed
next
  case (TimerFires h)
  show ?thesis
  proof (cases "find (\<lambda>t. handle t = h) (timers st)")
    case None
    with TimerFires show ?thesis by (simp add: timer_fires_def quiet_def)
  next
    case (Some t)
    let ?st0 = "st\<lparr>timers := clearTimeout h (timers st)\<rparr>"
    have c0: "consistent ?st0"
      using assms by (rule consistent_timers) (rule clearTimeout_subset)
    show ?thesis
    proof (cases "\<exists>u. getUserByName (target t) ?st0 = Some u \<and> status u = Queue")
      case False
      with TimerFires Some show ?thesis
        by (auto simp: timer_fires_def timeout_callback_after quiet_def clearTimeout_def
            split: option.splits)
    next
      case True
      let ?mid = "updateUserStatus (target t) Idle now ?st0"
      have c: "consistent ?mid"
        using c0 by (rule consistent_updateUserStatus_other) simp
      have "step ev now st =
          (fst (notifyNextInQueue ?mid),
           map QueueTimeout (getSocketsByName (target t) ?st0) @ broadcastState ?mid
             @ snd (notifyNextInQueue ?mid))"
        using TimerFires Some True
        by (auto simp: timer_fires_def timeout_callback_after after_change_def)
      with c show ?thesis by blast
    qed
  qed
qed

lemma consistent_quiet:
  assumes "consistent st" and "quiet st st'" and "inv_registry st'" and "inv_users st'"
    and "count_status Outside (users st') \<le> 4"
  shows "consistent st'"
proof -
  from assms(1) have hs: "inv_handles st" by (simp add: consistent_def)
  from assms(2) have n: "nextHandle st' = nextHandle st" and t: "set (timers st') \<subseteq> set (timers st)"
    by (simp_all add: quiet_def)
  from assms(2) consider "users st' = users st"
    | s v where "notificationTimeout v = None" "users st' = AList.update s v (users st)"
    by (auto simp: quiet_def)
  then have "inv_handles st'"
  proof cases
    case 1
    with hs n t show ?thesis unfolding inv_handles_def by fastforce
  next
    case 2
    with hs n t set_update_subset [of s v "users st"] show ?thesis
      unfolding inv_handles_def by fastforce
  qed
  with assms(3-5) show ?thesis by (simp add: consistent_def)
qed

lemma consistent_step:
  assumes "consistent st"
  shows "consistent (fst (step ev now st))"
proof -
  from step_cases [OF assms, of ev now]
  show ?thesis
  proof (elim disjE conjE exE)
    assume q: "quiet st (fst (step ev now st))"
    from assms have "inv_registry st" "inv_users st" "count_status Outside (users st) \<le> 4"
      by (simp_all add: consistent_def)
    then have "inv_registry (fst (step ev now st))" "inv_users (fst (step ev now st))"
      "count_status Outside (users (fst (step ev now st))) \<le> 4"
      by (simp_all add: inv_registry_step inv_users_step count_step)
    with assms q show ?thesis by (rule consistent_quiet)
  next
    fix mid timed_out
    assume "consistent mid"
      and "step ev now st = (fst (notifyNextInQueue mid),
              map QueueTimeout timed_out @ broadcastState mid @ snd (notifyNextInQueue mid))"
    then show ?thesis by (simp add: consistent_notifyNextInQueue)
  qed
qed

lemma reachable_consistent: "reachable st \<Longrightarrow> consistent st"
proof (induction rule: reachable.induct)
  case reachable_initial
  show ?case
    by (simp add: consistent_def inv_registry_def inv_users_def inv_handles_def initial_def ids_def
        count_status_def)
next
  case (reachable_step st ev now)
  then show ?case by (simp add: consistent_step)
qed

subsection \<open>Which record a name stands for\<close>

lemma keys_of_ids: "ids us' = ids us \<Longrightarrow> map fst us' = map fst us"
  by (metis map_fst_ids)

lemma userSocketByName_cong:
  assumes "nameToSockets st' = nameToSockets st" and "ids (users st') = ids (users st)"
  shows "userSocketByName nm st' = userSocketByName nm st"
proof -
  have "map_of (users st') s = None \<longleftrightarrow> map_of (users st) s = None" for s
    using keys_of_ids [OF assms(2)] by (metis map_of_eq_None_iff set_map)
  with assms(1) show ?thesis
    by (simp add: userSocketByName_def split: option.splits list.splits)
qed

lemma userSocketByName_Some:
  "userSocketByName nm st = Some s \<Longrightarrow> \<exists>u. map_of (users st) s = Some u"
  by (auto simp: userSocketByName_def split: option.splits list.splits if_splits)

lemma userSocketByName_clearUser [simp]:
  "userSocketByName nm (clearUserNotificationTimeout nm' st) = userSocketByName nm st"
  by (rule userSocketByName_cong) simp_all

lemma userSocketByName_clear_loop [simp]:
  "userSocketByName nm (clear_loop q st) = userSocketByName nm st"
  by (rule userSocketByName_cong) simp_all

lemma userSocketByName_notify_one [simp]:
  "userSocketByName nm (fst (notify_one e acc)) = userSocketByName nm (fst acc)"
  by (rule userSocketByName_cong) simp_all

lemma getSocketsByName_cong:
  "nameToSockets st' = nameToSockets st \<Longrightarrow> getSocketsByName nm st' = getSocketsByName nm st"
  by (simp add: getSocketsByName_def)

lemma userSocketByName_inv:
  assumes "inv_users st" and "map_of (users st) s = Some u"
  shows "userSocketByName (name u) st = Some s"
  using inv_users_map_of [OF assms] assms(2) by (simp add: userSocketByName_def)

lemma getUserByName_inv:
  assumes "inv_users st" and "map_of (users st) s = Some u"
  shows "getUserByName (name u) st = Some u"
  using userSocketByName_inv [OF assms] assms(2) by (simp add: getUserByName_def)

subsection \<open>Clearing the timer of a name\<close>

lemma disarm_None: "notificationTimeout u = None \<Longrightarrow> disarm u = u"
  by (simp add: disarm_def)

lemma disarm_idem [simp]: "disarm (disarm u) = disarm u"
  by (simp add: disarm_def)

lemma clearUser_resolved:
  assumes "userSocketByName nm st = Some s" and "map_of (users st) s = Some u"
  shows "clearUserNotificationTimeout nm st =
           (case notificationTimeout u of
              None \<Rightarrow> st
            | Some h \<Rightarrow> st\<lparr>timers := clearTimeout h (timers st),
                           users := AList.update s (disarm u) (users st)\<rparr>)"
  using assms by (simp add: clearUserNotificationTimeout_def disarm_def split: option.splits)

lemma clearUser_users:
  "map_of (users (clearUserNotificationTimeout nm st)) s =
     (if userSocketByName nm st = Some s then map_option disarm (map_of (users st) s)
      else map_of (users st) s)"
proof (cases "userSocketByName nm st")
  case None
  then show ?thesis by (simp add: clearUserNotificationTimeout_def)
next
  case (Some s')
  then obtain u where u: "map_of (users st) s' = Some u"
    by (auto dest: userSocketByName_Some)
  show ?thesis
  proof (cases "notificationTimeout u")
    case None
    with Some u show ?thesis by (auto simp: clearUser_resolved disarm_None)
  next
    case (Some h)
    with \<open>userSocketByName nm st = Some s'\<close> u show ?thesis
      by (auto simp: clearUser_resolved update_conv')
  qed
qed

lemma clearUser_timers_subset: "set (timers (clearUserNotificationTimeout nm st)) \<subseteq> set (timers st)"
  by (auto simp: clearUserNotificationTimeout_def clearTimeout_def split: option.splits)

lemma clearUser_nextHandle [simp]:
  "nextHandle (clearUserNotificationTimeout nm st) = nextHandle st"
  by (simp add: clearUserNotificationTimeout_def split: option.splits)

lemma clearUser_cancels:
  assumes "userSocketByName nm st = Some s" and "map_of (users st) s = Some u"
    and "notificationTimeout u = Some h"
  shows "h \<notin> handle ` set (timers (clearUserNotificationTimeout nm st))"
  using assms by (auto simp: clearUser_resolved clearTimeout_def)

lemma clear_loop_users:
  "map_of (users (clear_loop q st)) s =
     (if \<exists>e \<in> set q. userSocketByName (fst e) st = Some s
      then map_option disarm (map_of (users st) s)
      else map_of (users st) s)"
proof (induction q arbitrary: st)
  case Nil
  show ?case by simp
next
  case (Cons e q)
  show ?case
    by (cases "map_of (users st) s") (simp_all add: Cons.IH clearUser_users)
qed

lemma clear_loop_timers_subset: "set (timers (clear_loop q st)) \<subseteq> set (timers st)"
proof (induction q arbitrary: st)
  case Nil
  show ?case by simp
next
  case (Cons e q)
  from Cons.IH [of "clearUserNotificationTimeout (fst e) st"]
    clearUser_timers_subset [of "fst e" st]
  show ?case by auto
qed

lemma clear_loop_nextHandle [simp]: "nextHandle (clear_loop q st) = nextHandle st"
  by (induction q arbitrary: st) simp_all

lemma clear_loop_cancels:
  assumes "e \<in> set q" and "userSocketByName (fst e) st = Some s"
    and "map_of (users st) s = Some u" and "notificationTimeout u = Some h"
  shows "h \<notin> handle ` set (timers (clear_loop q st))"
  using assms
proof (induction q arbitrary: st u)
  case Nil
  then show ?case by simp
next
  case (Cons e' q)
  let ?st1 = "clearUserNotificationTimeout (fst e') st"
  show ?case
  proof (cases "userSocketByName (fst e') st = Some s")
    case True
    from clearUser_cancels [OF True Cons.prems(3,4)]
    have "h \<notin> handle ` set (timers ?st1)" .
    with clear_loop_timers_subset [of q ?st1] show ?thesis by auto
  next
    case False
    with Cons.prems(1,2) have in_q: "e \<in> set q" by auto
    from False Cons.prems(3) have "map_of (users ?st1) s = Some u"
      by (simp add: clearUser_users)
    from Cons.IH [OF in_q _ this Cons.prems(4)] Cons.prems(2)
    show ?thesis by simp
  qed
qed

subsection \<open>Arming timers\<close>

lemma notify_one_resolved:
  assumes "userSocketByName (fst e) st = Some s" and "map_of (users st) s = Some u"
  shows "notify_one e (st, out) =
           (st\<lparr>timers := timers st @
                  [\<lparr>handle = nextHandle st, delay = NOTIFICATION_TIMEOUT, target = fst e\<rparr>],
               nextHandle := Suc (nextHandle st),
               users := AList.update s (u\<lparr>notificationTimeout := Some (nextHandle st)\<rparr>) (users st)\<rparr>,
            out @ map YourTurn (getSocketsByName (fst e) st))"
  using assms by (simp add: notify_one_def Let_def)

lemma notify_one_unresolved:
  "userSocketByName (fst e) st = None \<Longrightarrow> notify_one e (st, out) = (st, out)"
  by (simp add: notify_one_def)

lemma notify_one_frame:
  assumes "userSocketByName (fst e) (fst acc) \<noteq> Some s"
  shows "map_of (users (fst (notify_one e acc))) s = map_of (users (fst acc)) s"
proof -
  obtain st out where acc: "acc = (st, out)" by (cases acc)
  show ?thesis
  proof (cases "userSocketByName (fst e) st")
    case None
    with acc show ?thesis by (simp add: notify_one_unresolved)
  next
    case (Some s')
    then obtain u where "map_of (users st) s' = Some u" by (auto dest: userSocketByName_Some)
    with Some assms acc show ?thesis by (auto simp: notify_one_resolved update_conv')
  qed
qed

lemma notify_one_mono:
  "set (timers (fst acc)) \<subseteq> set (timers (fst (notify_one e acc)))
   \<and> set (snd acc) \<subseteq> set (snd (notify_one e acc))
   \<and> nextHandle (fst acc) \<le> nextHandle (fst (notify_one e acc))
   \<and> handle ` set (timers (fst (notify_one e acc)))
       \<subseteq> handle ` set (timers (fst acc)) \<union> {h. nextHandle (fst acc) \<le> h}"
  by (cases acc) (auto simp: notify_one_def Let_def split: option.splits)

lemma userSocketByName_notify_loop [simp]:
  "userSocketByName nm (fst (notify_loop q acc)) = userSocketByName nm (fst acc)"
  by (rule userSocketByName_cong) simp_all

lemma notify_loop_frame:
  assumes "\<forall>e \<in> set q. userSocketByName (fst e) (fst acc) \<noteq> Some s"
  shows "map_of (users (fst (notify_loop q acc))) s = map_of (users (fst acc)) s"
  using assms
proof (induction q arbitrary: acc)
  case Nil
  show ?case by simp
next
  case (Cons e q)
  from Cons.prems have 1: "userSocketByName (fst e) (fst acc) \<noteq> Some s"
    and 2: "\<forall>e \<in> set q. userSocketByName (fst e) (fst (notify_one e' acc)) \<noteq> Some s" for e'
    by simp_all
  from Cons.IH [OF 2 [of e]] notify_one_frame [OF 1] show ?case by simp
qed

lemma above_trans:
  fixes n n1 :: nat
  assumes "A' \<subseteq> A1 \<union> {h. n1 \<le> h}" and "A1 \<subseteq> A \<union> {h. n \<le> h}" and "n \<le> n1"
  shows "A' \<subseteq> A \<union> {h. n \<le> h}"
proof
  fix x
  assume "x \<in> A'"
  with assms(1) consider "x \<in> A1" | "n1 \<le> x" by auto
  then show "x \<in> A \<union> {h. n \<le> h}"
  proof cases
    case 1
    with assms(2) show ?thesis by auto
  next
    case 2
    with assms(3) show ?thesis by simp
  qed
qed

lemma notify_loop_mono:
  "set (timers (fst acc)) \<subseteq> set (timers (fst (notify_loop q acc)))
   \<and> set (snd acc) \<subseteq> set (snd (notify_loop q acc))
   \<and> nextHandle (fst acc) \<le> nextHandle (fst (notify_loop q acc))
   \<and> handle ` set (timers (fst (notify_loop q acc)))
       \<subseteq> handle ` set (timers (fst acc)) \<union> {h. nextHandle (fst acc) \<le> h}"
proof (induction q arbitrary: acc)
  case Nil
  show ?case by simp
next
  case (Cons e q)
  let ?a = "notify_one e acc"
  let ?r = "notify_loop q ?a"
  from Cons.IH [of ?a] have
    i1: "set (timers (fst ?a)) \<subseteq> set (timers (fst ?r))" and
    i2: "set (snd ?a) \<subseteq> set (snd ?r)" and
    i3: "nextHandle (fst ?a) \<le> nextHandle (fst ?r)" and
    i4: "handle ` set (timers (fst ?r)) \<subseteq> handle ` set (timers (fst ?a)) \<union> {h. nextHandle (fst ?a) \<le> h}"
    by blast+
  from notify_one_mono [of acc e] have
    o1: "set (timers (fst acc)) \<subseteq> set (timers (fst ?a))" and
    o2: "set (snd acc) \<subseteq> set (snd ?a)" and
    o3: "nextHandle (fst acc) \<le> nextHandle (fst ?a)" and
    o4: "handle ` set (timers (fst ?a)) \<subseteq> handle ` set (timers (fst acc)) \<union> {h. nextHandle (fst acc) \<le> h}"
    by blast+
  have 1: "set (timers (fst acc)) \<subseteq> set (timers (fst ?r))" using o1 i1 by (rule subset_trans)
  have 2: "set (snd acc) \<subseteq> set (snd ?r)" using o2 i2 by (rule subset_trans)
  have 3: "nextHandle (fst acc) \<le> nextHandle (fst ?r)" using o3 i3 by (rule order_trans)
  have 4: "handle ` set (timers (fst ?r)) \<subseteq> handle ` set (timers (fst acc)) \<union> {h. nextHandle (fst acc) \<le> h}"
    using i4 o4 o3 by (rule above_trans)
  from 1 2 3 4 show ?case by (simp only: notify_loop.simps)
qed

lemma notify_loop_armed:
  assumes "e \<in> set q"
    and "distinct (map (\<lambda>e. userSocketByName (fst e) st) q)"
    and "userSocketByName (fst e) st = Some s"
    and "map_of (users st) s = Some u"
  shows "\<exists>h \<ge> nextHandle st.
           map_of (users (fst (notify_loop q (st, out)))) s = Some (u\<lparr>notificationTimeout := Some h\<rparr>)
         \<and> \<lparr>handle = h, delay = NOTIFICATION_TIMEOUT, target = fst e\<rparr>
              \<in> set (timers (fst (notify_loop q (st, out))))
         \<and> (\<forall>t \<in> set (getSocketsByName (fst e) st). YourTurn t \<in> set (snd (notify_loop q (st, out))))"
  using assms
proof (induction q arbitrary: st out)
  case Nil
  then show ?case by simp
next
  case (Cons e' q)
  obtain st1 out1 where one: "notify_one e' (st, out) = (st1, out1)"
    by (cases "notify_one e' (st, out)")
  have res1: "userSocketByName nm st1 = userSocketByName nm st" for nm
    using userSocketByName_notify_one [of nm e' "(st, out)"] one by simp
  have d: "distinct (map (\<lambda>e. userSocketByName (fst e) st1) q)"
    using Cons.prems(2) by (simp add: res1)
  show ?case
  proof (cases "userSocketByName (fst e') st = Some s")
    case True
    have notin: "\<forall>e'' \<in> set q. userSocketByName (fst e'') st \<noteq> Some s"
    proof
      fix e''
      assume "e'' \<in> set q"
      then have "userSocketByName (fst e'') st \<in> set (map (\<lambda>e. userSocketByName (fst e) st) q)"
        by simp
      moreover from Cons.prems(2) True
      have "Some s \<notin> set (map (\<lambda>e. userSocketByName (fst e) st) q)" by simp
      ultimately show "userSocketByName (fst e'') st \<noteq> Some s" by metis
    qed
    with Cons.prems(1,3) have ee: "e = e'" by auto
    from notify_one_resolved [OF True Cons.prems(4), of out] one have
      st1: "st1 = st\<lparr>timers := timers st @
                  [\<lparr>handle = nextHandle st, delay = NOTIFICATION_TIMEOUT, target = fst e'\<rparr>],
               nextHandle := Suc (nextHandle st),
               users := AList.update s (u\<lparr>notificationTimeout := Some (nextHandle st)\<rparr>) (users st)\<rparr>"
      and out1: "out1 = out @ map YourTurn (getSocketsByName (fst e') st)"
      by simp_all
    have "\<forall>e'' \<in> set q. userSocketByName (fst e'') (fst (st1, out1)) \<noteq> Some s"
      using notin by (simp add: res1)
    from notify_loop_frame [OF this]
    have a: "map_of (users (fst (notify_loop q (st1, out1)))) s
               = Some (u\<lparr>notificationTimeout := Some (nextHandle st)\<rparr>)"
      by (simp add: st1 update_conv')
    from notify_loop_mono [of "(st1, out1)" q]
    have m1: "set (timers st1) \<subseteq> set (timers (fst (notify_loop q (st1, out1))))"
      and m2: "set out1 \<subseteq> set (snd (notify_loop q (st1, out1)))"
      by simp_all
    have b: "\<lparr>handle = nextHandle st, delay = NOTIFICATION_TIMEOUT, target = fst e\<rparr>
               \<in> set (timers (fst (notify_loop q (st1, out1))))"
      using m1 by (auto simp: st1 ee)
    have c: "\<forall>t \<in> set (getSocketsByName (fst e) st). YourTurn t \<in> set (snd (notify_loop q (st1, out1)))"
      using m2 by (auto simp: out1 ee)
    from a b c show ?thesis
      by (simp only: notify_loop.simps one) blast
  next
    case False
    with Cons.prems(1,3) have in_q: "e \<in> set q" by auto
    from False have "userSocketByName (fst e') (fst (st, out)) \<noteq> Some s" by simp
    from notify_one_frame [OF this] Cons.prems(4) one
    have u1: "map_of (users st1) s = Some u" by simp
    have r1: "userSocketByName (fst e) st1 = Some s"
      using Cons.prems(3) by (simp add: res1)
    from Cons.IH [OF in_q d r1 u1, of out1] obtain h where
      h: "nextHandle st1 \<le> h"
      and a: "map_of (users (fst (notify_loop q (st1, out1)))) s = Some (u\<lparr>notificationTimeout := Some h\<rparr>)"
      and b: "\<lparr>handle = h, delay = NOTIFICATION_TIMEOUT, target = fst e\<rparr>
               \<in> set (timers (fst (notify_loop q (st1, out1))))"
      and c: "\<forall>t \<in> set (getSocketsByName (fst e) st1). YourTurn t \<in> set (snd (notify_loop q (st1, out1)))"
      by blast
    from notify_one_mono [of "(st, out)" e'] one have "nextHandle st \<le> nextHandle st1" by simp
    with h have h': "nextHandle st \<le> h" by simp
    have "nameToSockets st1 = nameToSockets st"
      using nameToSockets_notify_one [of e' "(st, out)"] one by simp
    then have "getSocketsByName (fst e) st1 = getSocketsByName (fst e) st"
      by (rule getSocketsByName_cong)
    with c have c': "\<forall>t \<in> set (getSocketsByName (fst e) st). YourTurn t \<in> set (snd (notify_loop q (st1, out1)))"
      by simp
    from h' a b c' show ?thesis
      by (simp only: notify_loop.simps one) blast
  qed
qed

subsection \<open>The entries of the projected queue\<close>

lemma queue_entry:
  assumes "inv_users st" and "e \<in> set (snd (getState st))"
  shows "\<exists>s u. map_of (users st) s = Some u \<and> status u = Queue \<and> e = (name u, joinedAt u)
           \<and> userSocketByName (fst e) st = Some s"
proof -
  from assms have "e \<in> ent ` set (filter (has_status Queue) (users st))"
    by (simp add: getState_inv)
  then obtain s u where su: "(s, u) \<in> set (users st)" and q: "status u = Queue" and e: "e = ent (s, u)"
    by (auto simp: has_status_def)
  from assms(1) su have m: "map_of (users st) s = Some u"
    by (simp add: inv_users_def)
  from userSocketByName_inv [OF assms(1) m] e have "userSocketByName (fst e) st = Some s"
    by (simp add: ent_def)
  with m q e show ?thesis by (auto simp: ent_def)
qed

lemma queue_member:
  assumes "inv_users st" and "map_of (users st) s = Some u" and "status u = Queue"
  shows "(name u, joinedAt u) \<in> set (snd (getState st))"
proof -
  from assms(2) have "(s, u) \<in> set (users st)" by (rule map_of_SomeD)
  with assms(3) have "ent (s, u) \<in> ent ` set (filter (has_status Queue) (users st))"
    by (auto simp: has_status_def)
  with assms(1) show ?thesis by (simp add: getState_inv ent_def)
qed

lemma distinct_map_sort_key: "distinct (map f (sort_key g xs)) = distinct (map f xs)"
  by (simp add: distinct_map)

lemma queue_distinct:
  assumes "inv_users st"
  shows "distinct (map (\<lambda>e. userSocketByName (fst e) st) (snd (getState st)))"
proof -
  let ?qs = "filter (has_status Queue) (users st)"
  have eq: "map (\<lambda>e. userSocketByName (fst e) st) (map ent ?qs) = map (\<lambda>p. Some (fst p)) ?qs"
  proof -
    have "userSocketByName (fst (ent p)) st = Some (fst p)" if "p \<in> set ?qs" for p
    proof -
      from that have p: "p \<in> set (users st)" by simp
      obtain s u where su: "p = (s, u)" by (cases p)
      from assms p su have "map_of (users st) s = Some u" by (simp add: inv_users_def)
      from userSocketByName_inv [OF assms this] su show ?thesis by (simp add: ent_def)
    qed
    then show ?thesis by simp
  qed
  have dist: "distinct (map (\<lambda>p. Some (fst p)) ?qs)"
  proof -
    from assms have "distinct (map fst (users st))" by (simp add: inv_users_def)
    then have "distinct (map fst ?qs)" by (rule distinct_map_filter)
    then have "distinct (map Some (map fst ?qs))"
      by (subst distinct_map) (simp only: inj_on_def, blast)
    then show ?thesis by (simp only: map_map comp_def)
  qed
  show ?thesis
    unfolding getState_inv [OF assms] snd_conv distinct_map_sort_key eq by (rule dist)
qed

subsection \<open>What a pass of the notifier leaves behind\<close>

lemma notifyNextInQueue_eq:
  "notifyNextInQueue st =
     notify_loop (take (min (slots st) (length (snd (getState st)))) (snd (getState st)))
       (clear_loop (snd (getState st)) st, [])"
proof -
  obtain outside queue where g: "getState st = (outside, queue)" by (cases "getState st")
  let ?a = "max 0 (MAX_OUTSIDE - int (length outside))"
  have k: "nat (min ?a (int (length queue))) = min (slots st) (length queue)"
    by (simp add: slots_def g)
  show ?thesis
  proof (cases "?a \<le> 0 \<or> length queue = 0")
    case True
    then have "min (slots st) (length queue) = 0"
      by (auto simp: slots_def g)
    with True g show ?thesis by (simp add: notifyNextInQueue_def Let_def)
  next
    case False
    with g k show ?thesis by (simp add: notifyNextInQueue_def Let_def)
  qed
qed

lemma userSocketByName_notifyNextInQueue [simp]:
  "userSocketByName nm (fst (notifyNextInQueue st)) = userSocketByName nm st"
  by (rule userSocketByName_cong) simp_all

lemma getSocketsByName_notifyNextInQueue [simp]:
  "getSocketsByName nm (fst (notifyNextInQueue st)) = getSocketsByName nm st"
  by (rule getSocketsByName_cong) simp

lemma getUserByName_resolved:
  "userSocketByName nm st = Some s \<Longrightarrow> getUserByName nm st = map_of (users st) s"
  by (simp add: getUserByName_def)

lemma cleared_record:
  assumes "e \<in> set q" and "userSocketByName (fst e) st = Some s" and "map_of (users st) s = Some u"
  shows "map_of (users (clear_loop q st)) s = Some (disarm u)"
  using assms by (auto simp: clear_loop_users)

lemma pass_cancels:
  assumes "consistent st" and "e \<in> set (snd (getState st))"
    and "getUserByName (fst e) st = Some u" and "notificationTimeout u = Some h"
  shows "h \<notin> handle ` set (timers (fst (notifyNextInQueue st)))"
proof -
  let ?queue = "snd (getState st)"
  let ?st1 = "clear_loop ?queue st"
  let ?k = "min (slots st) (length ?queue)"
  from assms(1) have us: "inv_users st" and hs: "inv_handles st" by (simp_all add: consistent_def)
  from queue_entry [OF us assms(2)] obtain s where s: "userSocketByName (fst e) st = Some s"
    by blast
  with assms(3) have u: "map_of (users st) s = Some u" by (simp add: getUserByName_resolved)
  from clear_loop_cancels [OF assms(2) s u assms(4)]
  have 1: "h \<notin> handle ` set (timers ?st1)" .
  from inv_handles_map_of [OF hs u assms(4)] have 2: "h < nextHandle ?st1" by simp
  from notify_loop_mono [of "(?st1, [])" "take ?k ?queue"]
  have "handle ` set (timers (fst (notifyNextInQueue st)))
       \<subseteq> handle ` set (timers ?st1) \<union> {h. nextHandle ?st1 \<le> h}"
    by (simp add: notifyNextInQueue_eq [symmetric])
  with 1 2 show ?thesis by auto
qed

lemma pass_arms:
  assumes "consistent st"
    and "e \<in> set (take (min (slots st) (length (snd (getState st)))) (snd (getState st)))"
  shows "\<exists>u' h. getUserByName (fst e) (fst (notifyNextInQueue st)) = Some u'
           \<and> notificationTimeout u' = Some h \<and> nextHandle st \<le> h
           \<and> \<lparr>handle = h, delay = NOTIFICATION_TIMEOUT, target = fst e\<rparr>
                \<in> set (timers (fst (notifyNextInQueue st)))
           \<and> (\<forall>t \<in> set (getSocketsByName (fst e) (fst (notifyNextInQueue st))).
                 YourTurn t \<in> set (snd (notifyNextInQueue st)))"
proof -
  let ?queue = "snd (getState st)"
  let ?st1 = "clear_loop ?queue st"
  let ?k = "min (slots st) (length ?queue)"
  from assms(1) have us: "inv_users st" by (simp add: consistent_def)
  from assms(2) have in_q: "e \<in> set ?queue" by (rule in_set_takeD)
  from queue_entry [OF us in_q] obtain s u where
    s: "userSocketByName (fst e) st = Some s" and u: "map_of (users st) s = Some u"
    by blast
  have u1: "map_of (users ?st1) s = Some (disarm u)"
    using in_q s u by (rule cleared_record)
  have s1: "userSocketByName (fst e) ?st1 = Some s" using s by simp
  have "distinct (map (\<lambda>e. userSocketByName (fst e) st) (take ?k ?queue))"
    using queue_distinct [OF us] by (simp add: take_map [symmetric] distinct_take)
  then have d1: "distinct (map (\<lambda>e. userSocketByName (fst e) ?st1) (take ?k ?queue))"
    by simp
  from notify_loop_armed [OF assms(2) d1 s1 u1, of "[]"] obtain h where
    h: "nextHandle ?st1 \<le> h"
    and a: "map_of (users (fst (notifyNextInQueue st))) s
              = Some ((disarm u)\<lparr>notificationTimeout := Some h\<rparr>)"
    and b: "\<lparr>handle = h, delay = NOTIFICATION_TIMEOUT, target = fst e\<rparr>
              \<in> set (timers (fst (notifyNextInQueue st)))"
    and c: "\<forall>t \<in> set (getSocketsByName (fst e) ?st1). YourTurn t \<in> set (snd (notifyNextInQueue st))"
    by (auto simp: notifyNextInQueue_eq [symmetric])
  have "getUserByName (fst e) (fst (notifyNextInQueue st))
          = Some ((disarm u)\<lparr>notificationTimeout := Some h\<rparr>)"
    using s a by (simp add: getUserByName_resolved)
  moreover have "getSocketsByName (fst e) ?st1 = getSocketsByName (fst e) st"
    by (rule getSocketsByName_cong) simp
  ultimately show ?thesis using h b c by simp
qed

lemma pass_skips:
  assumes "consistent st"
    and "e \<in> set (drop (min (slots st) (length (snd (getState st)))) (snd (getState st)))"
  shows "\<exists>u'. getUserByName (fst e) (fst (notifyNextInQueue st)) = Some u'
           \<and> notificationTimeout u' = None"
proof -
  let ?queue = "snd (getState st)"
  let ?st1 = "clear_loop ?queue st"
  let ?k = "min (slots st) (length ?queue)"
  let ?f = "\<lambda>e. userSocketByName (fst e) st"
  from assms(1) have us: "inv_users st" by (simp add: consistent_def)
  from assms(2) have in_q: "e \<in> set ?queue" by (rule in_set_dropD)
  from queue_entry [OF us in_q] obtain s u where
    s: "userSocketByName (fst e) st = Some s" and u: "map_of (users st) s = Some u"
    by blast
  have u1: "map_of (users ?st1) s = Some (disarm u)"
    using in_q s u by (rule cleared_record)
  have "map ?f (take ?k ?queue) @ map ?f (drop ?k ?queue) = map ?f ?queue"
    by (simp only: map_append [symmetric] append_take_drop_id)
  with queue_distinct [OF us]
  have "distinct (map ?f (take ?k ?queue) @ map ?f (drop ?k ?queue))"
    by (simp only:)
  then have "set (map ?f (take ?k ?queue)) \<inter> set (map ?f (drop ?k ?queue)) = {}"
    by (simp only: distinct_append)
  moreover have "?f e \<in> ?f ` set (drop ?k ?queue)"
    using assms(2) by (rule imageI)
  then have "Some s \<in> set (map ?f (drop ?k ?queue))"
    using s by (simp only: set_map)
  ultimately have "Some s \<notin> set (map ?f (take ?k ?queue))" by blast
  then have "\<forall>e' \<in> set (take ?k ?queue). userSocketByName (fst e') (fst (?st1, [])) \<noteq> Some s"
    by (auto simp: image_iff)
  from notify_loop_frame [OF this] u1
  have "map_of (users (fst (notifyNextInQueue st))) s = Some (disarm u)"
    by (simp add: notifyNextInQueue_eq [symmetric])
  with s show ?thesis by (simp add: getUserByName_resolved disarm_def)
qed

lemma pass_holders:
  assumes "consistent st"
  shows "filter (\<lambda>e. holds_timer (fst (notifyNextInQueue st)) (fst e)) (snd (getState st))
           = take (min (slots st) (length (snd (getState st)))) (snd (getState st))"
proof -
  let ?queue = "snd (getState st)"
  let ?k = "min (slots st) (length ?queue)"
  let ?P = "\<lambda>e. holds_timer (fst (notifyNextInQueue st)) (fst e)"
  have yes: "?P e" if "e \<in> set (take ?k ?queue)" for e
  proof -
    from pass_arms [OF assms that] obtain u' h where
      "getUserByName (fst e) (fst (notifyNextInQueue st)) = Some u'"
      "notificationTimeout u' = Some h"
      "\<lparr>handle = h, delay = NOTIFICATION_TIMEOUT, target = fst e\<rparr>
                \<in> set (timers (fst (notifyNextInQueue st)))"
      by blast
    then show ?thesis by (force simp: holds_timer_def)
  qed
  have no: "\<not> ?P e" if "e \<in> set (drop ?k ?queue)" for e
  proof -
    from pass_skips [OF assms that] obtain u' where
      "getUserByName (fst e) (fst (notifyNextInQueue st)) = Some u'" "notificationTimeout u' = None"
      by blast
    then show ?thesis by (simp add: holds_timer_def)
  qed
  have "filter ?P ?queue = filter ?P (take ?k ?queue) @ filter ?P (drop ?k ?queue)"
    by (simp only: filter_append [symmetric] append_take_drop_id)
  also have "filter ?P (take ?k ?queue) = take ?k ?queue"
    using yes by (simp add: filter_id_conv)
  also have "filter ?P (drop ?k ?queue) = []"
    using no by (simp add: filter_empty_conv)
  finally show ?thesis by simp
qed

subsection \<open>Queued records with an armed timer\<close>

lemma holders_count:
  assumes "inv_users st"
  shows "length (filter (\<lambda>e. holds_timer st (fst e)) (snd (getState st)))
           = length (filter (armed st) (users st))"
proof -
  let ?P = "\<lambda>e. holds_timer st (fst e)"
  let ?qs = "filter (has_status Queue) (users st)"
  have "length (filter ?P (snd (getState st))) = length (filter ?P (map ent ?qs))"
    using assms by (simp add: getState_inv filter_sort)
  also have "\<dots> = length (filter (\<lambda>p. ?P (ent p)) ?qs)"
    by (simp add: filter_map comp_def)
  also have "filter (\<lambda>p. ?P (ent p)) ?qs = filter (\<lambda>p. has_status Queue p \<and> ?P (ent p)) (users st)"
    by (simp add: conj_commute)
  also have "\<dots> = filter (armed st) (users st)"
  proof (rule filter_cong [OF refl])
    fix p
    assume p: "p \<in> set (users st)"
    obtain s u where su: "p = (s, u)" by (cases p)
    from assms p su have "map_of (users st) s = Some u" by (simp add: inv_users_def)
    from getUserByName_inv [OF assms this] su
    show "(has_status Queue p \<and> ?P (ent p)) = armed st p"
      by (simp add: armed_def holds_timer_def ent_def)
  qed
  finally show ?thesis .
qed

lemma length_filter_mono:
  "(\<And>x. x \<in> set xs \<Longrightarrow> P x \<Longrightarrow> Q x) \<Longrightarrow> length (filter P xs) \<le> length (filter Q xs)"
  by (induction xs) auto

lemma length_filter_update:
  "\<not> P (k, v) \<Longrightarrow> length (filter P (AList.update k v al)) \<le> length (filter P al)"
  by (induction al) auto

lemma slots_count:
  assumes "consistent st"
  shows "slots st + count_status Outside (users st) = 4"
proof -
  from assms have "inv_users st" and c: "count_status Outside (users st) \<le> 4"
    by (simp_all add: consistent_def)
  then have "slots st = nat (4 - int (count_status Outside (users st)))"
    by (simp add: slots_def outside_count MAX_OUTSIDE_def)
  with c show ?thesis by linarith
qed

lemma holders_after_pass:
  assumes "consistent mid"
  shows "length (filter (armed (fst (notifyNextInQueue mid))) (users (fst (notifyNextInQueue mid))))
           + count_status Outside (users (fst (notifyNextInQueue mid))) \<le> 4"
proof -
  let ?st' = "fst (notifyNextInQueue mid)"
  have c': "consistent ?st'" using assms by (rule consistent_notifyNextInQueue)
  then have us': "inv_users ?st'" by (simp add: consistent_def)
  have "length (filter (armed ?st') (users ?st'))
          = length (filter (\<lambda>e. holds_timer ?st' (fst e)) (snd (getState mid)))"
    using holders_count [OF us'] by simp
  also have "\<dots> \<le> slots mid"
    by (simp add: pass_holders [OF assms])
  finally have "length (filter (armed ?st') (users ?st')) \<le> slots mid" .
  moreover have "count_status Outside (users ?st') = count_status Outside (users mid)"
    by (rule count_view) simp
  ultimately show ?thesis using slots_count [OF assms] by simp
qed

lemma holders_quiet:
  assumes "quiet st st'"
  shows "length (filter (armed st') (users st')) \<le> length (filter (armed st) (users st))
       \<and> count_status Outside (users st') \<le> count_status Outside (users st)"
proof -
  from assms have t: "set (timers st') \<subseteq> set (timers st)" by (simp add: quiet_def)
  have mono: "length (filter (armed st') xs) \<le> length (filter (armed st) xs)" for xs
  proof (rule length_filter_mono)
    fix x
    assume "armed st' x"
    with t show "armed st x" by (auto simp: armed_def split: option.splits)
  qed
  from assms consider "users st' = users st"
    | s v where "status v = Idle" "users st' = AList.update s v (users st)"
    by (auto simp: quiet_def)
  then show ?thesis
  proof cases
    case 1
    with mono [of "users st"] show ?thesis by simp
  next
    case 2
    have "\<not> armed st' (s, v)" using 2(1) by (simp add: armed_def has_status_def)
    then have "length (filter (armed st') (users st')) \<le> length (filter (armed st') (users st))"
      unfolding 2(2) by (rule length_filter_update)
    with mono [of "users st"]
    have a: "length (filter (armed st') (users st')) \<le> length (filter (armed st) (users st))"
      by simp
    have "\<not> has_status Outside (s, v)" using 2(1) by (simp add: has_status_def)
    then have "count_status Outside (users st') \<le> count_status Outside (users st)"
      unfolding 2(2) count_status_def by (rule length_filter_update)
    with a show ?thesis by simp
  qed
qed

lemma holders_step:
  assumes "consistent st"
    and "length (filter (armed st) (users st)) + count_status Outside (users st) \<le> 4"
  shows "length (filter (armed (fst (step ev now st))) (users (fst (step ev now st))))
           + count_status Outside (users (fst (step ev now st))) \<le> 4"
proof -
  from step_cases [OF assms(1), of ev now]
  show ?thesis
  proof (elim disjE conjE exE)
    assume "quiet st (fst (step ev now st))"
    from holders_quiet [OF this] assms(2) show ?thesis by simp
  next
    fix mid timed_out
    assume "consistent mid"
      and "step ev now st = (fst (notifyNextInQueue mid),
              map QueueTimeout timed_out @ broadcastState mid @ snd (notifyNextInQueue mid))"
    then show ?thesis by (simp add: holders_after_pass)
  qed
qed

lemma reachable_holders:
  "reachable st \<Longrightarrow>
     length (filter (armed st) (users st)) + count_status Outside (users st) \<le> 4"
proof (induction rule: reachable.induct)
  case reachable_initial
  show ?case by (simp add: initial_def count_status_def)
next
  case (reachable_step st ev now)
  then show ?case by (simp add: holders_step reachable_consistent)
qed

lemma notifier_post_consistent:
  assumes "consistent st"
  shows "notifier_post st"
proof -
  let ?queue = "snd (getState st)"
  let ?k = "min (slots st) (length ?queue)"
  let ?st' = "fst (notifyNextInQueue st)"
  from assms have hs: "inv_handles st" by (simp add: consistent_def)
  have 1: "getState ?st' = getState st" by simp
  have 2: "\<forall>e \<in> set ?queue. \<forall>u h.
             getUserByName (fst e) st = Some u \<and> notificationTimeout u = Some h
               \<longrightarrow> h \<notin> handle ` set (timers ?st')"
    using pass_cancels [OF assms] by blast
  have 3: "filter (\<lambda>e. holds_timer ?st' (fst e)) ?queue = take ?k ?queue"
    using assms by (rule pass_holders)
  have 4: "\<exists>u' h. getUserByName (fst e) ?st' = Some u' \<and> notificationTimeout u' = Some h
           \<and> nextHandle st \<le> h \<and> h \<notin> handle ` set (timers st)
           \<and> \<lparr>handle = h, delay = NOTIFICATION_TIMEOUT, target = fst e\<rparr> \<in> set (timers ?st')
           \<and> (\<forall>t \<in> set (getSocketsByName (fst e) ?st'). YourTurn t \<in> set (snd (notifyNextInQueue st)))"
    if "e \<in> set (take ?k ?queue)" for e
  proof -
    from pass_arms [OF assms that] obtain u' h where
      a: "getUserByName (fst e) ?st' = Some u'" "notificationTimeout u' = Some h"
      and h: "nextHandle st \<le> h"
      and b: "\<lparr>handle = h, delay = NOTIFICATION_TIMEOUT, target = fst e\<rparr> \<in> set (timers ?st')"
        "\<forall>t \<in> set (getSocketsByName (fst e) ?st'). YourTurn t \<in> set (snd (notifyNextInQueue st))"
      by blast
    from hs h have "h \<notin> handle ` set (timers st)"
      by (auto simp: inv_handles_def)
    with a h b show ?thesis by blast
  qed
  from 1 2 3 4 show ?thesis
    unfolding notifier_post_def Let_def by blast
qed

text \<open>
  The notifier, for the timers that user records hold. In every reachable state the
  queued identities that hold an armed claim timer are at most
  \<open>max 0 (MAX_OUTSIDE - outsideCount)\<close>. Every event of a reachable state either
  runs no pass of the notifier (no \<open>your_turn\<close> is sent, no timer is armed) or runs the
  pass on a state \<open>mid\<close> after which: the projection is still that of \<open>mid\<close>; no timer
  handle that the record of a queued identity held before the pass is pending; the queued
  identities that hold a pending timer are exactly the first \<open>min avail |queue|\<close> of the
  queue in its order; each of these holds a handle created by this pass, pending with a
  delay of \<open>NOTIFICATION_TIMEOUT\<close> for its name, and every socket of the name has been sent
  \<open>your_turn\<close>. An identity holds the timer whose handle is stored in its user record;
  a pending timer that no record holds is not counted here.
\<close>

lemma turn_notifier:
  assumes "reachable st"
  shows "length (filter (\<lambda>e. holds_timer st (fst e)) (snd (getState st))) \<le> slots st
       \<and> ((quiet st (fst (step ev now st)) \<and> (\<forall>s. YourTurn s \<notin> set (snd (step ev now st))))
          \<or> (\<exists>mid timed_out. notifier_post mid
               \<and> step ev now st =
                   (fst (notifyNextInQueue mid),
                    map QueueTimeout timed_out @ broadcastState mid @ snd (notifyNextInQueue mid))))"
proof -
  from assms have c: "consistent st" by (rule reachable_consistent)
  then have us: "inv_users st" by (simp add: consistent_def)
  have "length (filter (\<lambda>e. holds_timer st (fst e)) (snd (getState st))) \<le> slots st"
    using reachable_holders [OF assms] slots_count [OF c] holders_count [OF us] by simp
  moreover from step_cases [OF c, of ev now]
  have "(quiet st (fst (step ev now st)) \<and> (\<forall>s. YourTurn s \<notin> set (snd (step ev now st))))
          \<or> (\<exists>mid timed_out. notifier_post mid
               \<and> step ev now st =
                   (fst (notifyNextInQueue mid),
                    map QueueTimeout timed_out @ broadcastState mid @ snd (notifyNextInQueue mid)))"
    using notifier_post_consistent by blast
  ultimately show ?thesis ..
qed

subsection \<open>Records across a pass of the notifier\<close>

lemma clear_loop_record:
  assumes "map_of (users st) s = Some u"
  shows "\<exists>u'. map_of (users (clear_loop q st)) s = Some u'
           \<and> name u' = name u \<and> status u' = status u \<and> joinedAt u' = joinedAt u"
  using assms by (simp add: clear_loop_users disarm_def)

lemma notify_one_record:
  assumes "map_of (users (fst acc)) s = Some u"
  shows "\<exists>u'. map_of (users (fst (notify_one e acc))) s = Some u'
           \<and> name u' = name u \<and> status u' = status u \<and> joinedAt u' = joinedAt u"
proof (cases "userSocketByName (fst e) (fst acc) = Some s")
  case False
  from notify_one_frame [OF False] assms show ?thesis by simp
next
  case True
  obtain st out where acc: "acc = (st, out)" by (cases acc)
  with True assms show ?thesis
    by (simp add: notify_one_resolved update_conv')
qed

lemma notify_loop_record:
  assumes "map_of (users (fst acc)) s = Some u"
  shows "\<exists>u'. map_of (users (fst (notify_loop q acc))) s = Some u'
           \<and> name u' = name u \<and> status u' = status u \<and> joinedAt u' = joinedAt u"
  using assms
proof (induction q arbitrary: acc u)
  case Nil
  then show ?case by simp
next
  case (Cons e q)
  from notify_one_record [OF Cons.prems, of e] obtain u1 where
    1: "map_of (users (fst (notify_one e acc))) s = Some u1"
    and 2: "name u1 = name u" "status u1 = status u" "joinedAt u1 = joinedAt u"
    by blast
  from Cons.IH [OF 1] 2 show ?case by simp
qed

lemma pass_record:
  assumes "map_of (users st) s = Some u"
  shows "\<exists>u'. map_of (users (fst (notifyNextInQueue st))) s = Some u'
           \<and> name u' = name u \<and> status u' = status u \<and> joinedAt u' = joinedAt u"
proof -
  let ?queue = "snd (getState st)"
  from clear_loop_record [OF assms, of ?queue] obtain u1 where
    1: "map_of (users (fst (clear_loop ?queue st, []::emission list))) s = Some u1"
    and 2: "name u1 = name u" "status u1 = status u" "joinedAt u1 = joinedAt u"
    by auto
  from notify_loop_record [OF 1, of "take (min (slots st) (length ?queue)) ?queue"] obtain u' where
    "map_of (users (fst (notify_loop (take (min (slots st) (length ?queue)) ?queue)
        (clear_loop ?queue st, [])))) s = Some u'"
    "name u' = name u1" "status u' = status u1" "joinedAt u' = joinedAt u1"
    by blast
  with 2 show ?thesis
    unfolding notifyNextInQueue_eq by simp
qed

lemma pass_handles:
  "handle ` set (timers (fst (notifyNextInQueue st)))
     \<subseteq> handle ` set (timers st) \<union> {h. nextHandle st \<le> h}"
proof -
  let ?queue = "snd (getState st)"
  let ?st1 = "clear_loop ?queue st"
  from notify_loop_mono [of "(?st1, [])" "take (min (slots st) (length ?queue)) ?queue"]
  have "handle ` set (timers (fst (notifyNextInQueue st)))
       \<subseteq> handle ` set (timers ?st1) \<union> {h. nextHandle ?st1 \<le> h}"
    by (simp add: notifyNextInQueue_eq [symmetric])
  moreover have "handle ` set (timers ?st1) \<subseteq> handle ` set (timers st)"
    using clear_loop_timers_subset [of ?queue st] by (rule image_mono)
  ultimately show ?thesis by auto
qed

subsection \<open>Status updates in a consistent state\<close>

lemma updateUserStatus_single:
  assumes "getSocketsByName nm st = [s]" and "map_of (users st) s = Some u"
  shows "updateUserStatus nm stat ts st =
           st\<lparr>users := AList.update s (u\<lparr>status := stat, joinedAt := ts\<rparr>) (users st)\<rparr>"
  using assms by (simp add: updateUserStatus_def)

lemma getSocketsByName_resolved:
  assumes "inv_registry st" and "userSocketByName nm st = Some s"
  shows "getSocketsByName nm st = [s]"
proof -
  from assms(2) obtain sockets where m: "map_of (nameToSockets st) (toLowerCase nm) = Some sockets"
    and h: "sockets \<noteq> []" "hd sockets = s"
    by (auto simp: userSocketByName_def split: option.splits list.splits if_splits)
  from inv_registry_map_of [OF assms(1) m] h have "sockets = [s]"
    by (cases sockets) auto
  with m show ?thesis by (simp add: getSocketsByName_def)
qed

subsection \<open>The position in the queue\<close>

lemma findIndex_absent:
  "\<forall>e \<in> set q. toLowerCase (fst e) \<noteq> key \<Longrightarrow> findIndex key q = -1"
  by (induction q) simp_all

lemma findIndex_present:
  "\<exists>e \<in> set q. toLowerCase (fst e) = key \<Longrightarrow>
     0 \<le> findIndex key q \<and> nat (findIndex key q) < length q
     \<and> toLowerCase (fst (q ! nat (findIndex key q))) = key"
proof (induction q)
  case Nil
  then show ?case by simp
next
  case (Cons e q)
  show ?case
  proof (cases "toLowerCase (fst e) = key")
    case True
    then show ?thesis by simp
  next
    case False
    with Cons.prems have "\<exists>e \<in> set q. toLowerCase (fst e) = key" by simp
    from Cons.IH [OF this] False show ?thesis
      by (simp add: Let_def nat_add_distrib)
  qed
qed

lemma queued_entry_unique:
  assumes "inv_users st" and "map_of (users st) s = Some u"
    and "e \<in> set (snd (getState st))" and "toLowerCase (fst e) = toLowerCase (name u)"
  shows "status u = Queue \<and> e = (name u, joinedAt u)"
proof -
  from queue_entry [OF assms(1,3)] obtain s2 u2 where
    2: "map_of (users st) s2 = Some u2" "status u2 = Queue" "e = (name u2, joinedAt u2)"
    by blast
  with assms(4) have "toLowerCase (name u2) = toLowerCase (name u)" by simp
  from same_key_same_socket [OF assms(1) 2(1) assms(2) this] have "s2 = s" .
  with 2 assms(2) show ?thesis by simp
qed

lemma isUserQueued_iff:
  assumes "inv_users st" and "map_of (users st) s = Some u"
  shows "(\<exists>e \<in> set (snd (getState st)). toLowerCase (fst e) = toLowerCase (name u))
           \<longleftrightarrow> status u = Queue"
proof
  assume "\<exists>e \<in> set (snd (getState st)). toLowerCase (fst e) = toLowerCase (name u)"
  then show "status u = Queue" using queued_entry_unique [OF assms] by blast
next
  assume "status u = Queue"
  from queue_member [OF assms this]
  show "\<exists>e \<in> set (snd (getState st)). toLowerCase (fst e) = toLowerCase (name u)"
    by force
qed

subsection \<open>leave_class\<close>

lemma below_not_in:
  fixes h n :: nat
  assumes "B \<subseteq> A \<union> {x. n \<le> x}" and "h \<notin> A" and "h < n"
  shows "h \<notin> B"
  using assms by auto

lemma leave_class_exact:
  assumes "map_of (users st) s = Some u" and "getState st = (outside, queue)"
  shows "leave_class s now st =
     after_change (updateUserStatus (name u)
       (if int (length queue) > 0 then
          (if (\<exists>e \<in> set queue. toLowerCase (fst e) = toLowerCase (name u))
               \<and> findIndex (toLowerCase (name u)) queue > -1
               \<and> findIndex (toLowerCase (name u)) queue < MAX_OUTSIDE - int (length outside)
           then Outside
           else if \<not> (\<exists>e \<in> set queue. toLowerCase (fst e) = toLowerCase (name u))
               \<and> int (length queue) < MAX_OUTSIDE - int (length outside)
           then Outside
           else Queue)
        else (if int (length outside) < MAX_OUTSIDE then Outside else Queue))
       now (clearUserNotificationTimeout (name u) st))"
  using assms by (auto simp: leave_class_def after_change_def Let_def split_def)

lemma admission_rule:
  assumes "inv_users st" and "map_of (users st) s = Some u" and "getState st = (outside, queue)"
  shows "(if int (length queue) > 0 then
          (if (\<exists>e \<in> set queue. toLowerCase (fst e) = toLowerCase (name u))
               \<and> findIndex (toLowerCase (name u)) queue > -1
               \<and> findIndex (toLowerCase (name u)) queue < MAX_OUTSIDE - int (length outside)
           then Outside
           else if \<not> (\<exists>e \<in> set queue. toLowerCase (fst e) = toLowerCase (name u))
               \<and> int (length queue) < MAX_OUTSIDE - int (length outside)
           then Outside
           else Queue)
        else (if int (length outside) < MAX_OUTSIDE then Outside else Queue))
     = (if queue = [] then (if int (length outside) < MAX_OUTSIDE then Outside else Queue)
        else if status u = Queue then
          (if findIndex (toLowerCase (name u)) queue < MAX_OUTSIDE - int (length outside)
           then Outside else Queue)
        else (if int (length queue) < MAX_OUTSIDE - int (length outside) then Outside else Queue))"
proof -
  have q: "(\<exists>e \<in> set queue. toLowerCase (fst e) = toLowerCase (name u)) \<longleftrightarrow> status u = Queue"
    using isUserQueued_iff [OF assms(1,2)] assms(3) by simp
  show ?thesis
  proof (cases "status u = Queue")
    case True
    with q have "\<exists>e \<in> set queue. toLowerCase (fst e) = toLowerCase (name u)" by simp
    from findIndex_present [OF this] have "findIndex (toLowerCase (name u)) queue > -1" by simp
    moreover from True q have "queue \<noteq> []" by auto
    ultimately show ?thesis using True q by simp
  next
    case False
    with q show ?thesis by (cases queue) simp_all
  qed
qed

text \<open>
  The admission rule. An authenticated socket sends \<open>leave_class\<close> in a reachable state with outside list
  \<open>outside\<close> and queue \<open>queue\<close>. Afterwards its record has the same name, the current
  time as \<open>joinedAt\<close>, and the status: with an empty queue, outside exactly when fewer than
  \<open>MAX_OUTSIDE\<close> are outside, else queue; with a non-empty queue, a queued identity is
  outside exactly when its index in the queue is below \<open>MAX_OUTSIDE - |outside|\<close>, an
  identity that is not queued exactly when the queue is strictly shorter than that, and
  queue otherwise. The index of a queued identity is its position in the projected queue.
  A timer handle the record held before is not pending afterwards.
\<close>

lemma leave_class_rule:
  assumes "reachable st" and "map_of (users st) s = Some u"
    and "getState st = (outside, queue)" and "leave_class s now st = (st', out)"
  shows "\<exists>u'. map_of (users st') s = Some u' \<and> name u' = name u \<and> joinedAt u' = now
         \<and> status u' =
             (if queue = [] then (if int (length outside) < MAX_OUTSIDE then Outside else Queue)
              else if status u = Queue then
                (if findIndex (toLowerCase (name u)) queue < MAX_OUTSIDE - int (length outside)
                 then Outside else Queue)
              else (if int (length queue) < MAX_OUTSIDE - int (length outside) then Outside else Queue))
         \<and> (status u = Queue \<longrightarrow>
               0 \<le> findIndex (toLowerCase (name u)) queue
             \<and> nat (findIndex (toLowerCase (name u)) queue) < length queue
             \<and> queue ! nat (findIndex (toLowerCase (name u)) queue) = (name u, joinedAt u))
         \<and> (\<forall>h. notificationTimeout u = Some h \<longrightarrow> h \<notin> handle ` set (timers st'))"
proof -
  from assms(1) have c: "consistent st" by (rule reachable_consistent)
  then have us: "inv_users st" and reg: "inv_registry st" and hs: "inv_handles st"
    by (simp_all add: consistent_def)
  let ?x = "if queue = [] then (if int (length outside) < MAX_OUTSIDE then Outside else Queue)
            else if status u = Queue then
              (if findIndex (toLowerCase (name u)) queue < MAX_OUTSIDE - int (length outside)
               then Outside else Queue)
            else (if int (length queue) < MAX_OUTSIDE - int (length outside) then Outside else Queue)"
  let ?st1 = "clearUserNotificationTimeout (name u) st"
  let ?mid = "updateUserStatus (name u) ?x now ?st1"
  have eq: "leave_class s now st = after_change ?mid"
    using leave_class_exact [OF assms(2,3), of now] admission_rule [OF us assms(2,3)]
    by simp
  with assms(4) have st': "st' = fst (notifyNextInQueue ?mid)"
    by (simp add: after_change_def)
  have r: "userSocketByName (name u) st = Some s"
    using us assms(2) by (rule userSocketByName_inv)
  have u1: "map_of (users ?st1) s = Some (disarm u)"
    using r assms(2) by (simp add: clearUser_users)
  have "getSocketsByName (name u) st = [s]"
    using us assms(2) by (rule getSocketsByName_inv)
  then have "getSocketsByName (name u) ?st1 = [s]"
    by (simp add: getSocketsByName_def)
  from updateUserStatus_single [OF this u1, of ?x now]
  have "map_of (users ?mid) s = Some ((disarm u)\<lparr>status := ?x, joinedAt := now\<rparr>)"
    by (simp add: update_conv')
  from pass_record [OF this] obtain u' where
    u': "map_of (users st') s = Some u'" "name u' = name u" "status u' = ?x" "joinedAt u' = now"
    by (auto simp: st' disarm_def)
  have idx: "0 \<le> findIndex (toLowerCase (name u)) queue
             \<and> nat (findIndex (toLowerCase (name u)) queue) < length queue
             \<and> queue ! nat (findIndex (toLowerCase (name u)) queue) = (name u, joinedAt u)"
    if "status u = Queue"
  proof -
    from that isUserQueued_iff [OF us assms(2)] assms(3)
    have "\<exists>e \<in> set queue. toLowerCase (fst e) = toLowerCase (name u)" by simp
    from findIndex_present [OF this] have
      i: "0 \<le> findIndex (toLowerCase (name u)) queue"
        "nat (findIndex (toLowerCase (name u)) queue) < length queue"
      and k: "toLowerCase (fst (queue ! nat (findIndex (toLowerCase (name u)) queue))) = toLowerCase (name u)"
      by simp_all
    from i(2) assms(3) have "queue ! nat (findIndex (toLowerCase (name u)) queue) \<in> set (snd (getState st))"
      by simp
    from queued_entry_unique [OF us assms(2) this k] i show ?thesis by simp
  qed
  have gone: "h \<notin> handle ` set (timers st')" if "notificationTimeout u = Some h" for h
  proof -
    from clearUser_cancels [OF r assms(2) that]
    have a: "h \<notin> handle ` set (timers ?mid)" by (simp add: updateUserStatus_def)
    from inv_handles_map_of [OF hs assms(2) that]
    have b: "h < nextHandle ?mid" by (simp add: updateUserStatus_def)
    show ?thesis unfolding st' by (rule below_not_in [OF pass_handles a b])
  qed
  from u' idx gone show ?thesis by blast
qed

subsection \<open>A claim timer fires\<close>

lemma outside_entry_unique:
  assumes "inv_users st" and "map_of (users st) s = Some u"
    and "e \<in> set (fst (getState st))" and "toLowerCase (fst e) = toLowerCase (name u)"
  shows "status u = Outside"
proof -
  from assms(1,3) have "e \<in> ent ` set (filter (has_status Outside) (users st))"
    by (simp add: getState_inv)
  then obtain s2 u2 where su: "(s2, u2) \<in> set (users st)" and q: "status u2 = Outside"
    and e: "e = ent (s2, u2)"
    by (auto simp: has_status_def)
  from assms(1) su have m: "map_of (users st) s2 = Some u2" by (simp add: inv_users_def)
  from e assms(4) have "toLowerCase (name u2) = toLowerCase (name u)" by (simp add: ent_def)
  from same_key_same_socket [OF assms(1) m assms(2) this] have "s2 = s" .
  with m q assms(2) show ?thesis by simp
qed

lemma getUserByName_Some:
  "getUserByName nm st = Some u \<Longrightarrow>
     \<exists>s. userSocketByName nm st = Some s \<and> map_of (users st) s = Some u"
  by (auto simp: getUserByName_def split: option.splits)

lemma userSocketByName_timers [simp]:
  "userSocketByName nm (st\<lparr>timers := ts\<rparr>) = userSocketByName nm st"
  by (simp add: userSocketByName_def split: option.splits list.splits)

lemma timer_fires_quiet:
  assumes "find (\<lambda>t. handle t = h) (timers st) = Some t"
    and "\<forall>u. getUserByName (target t) st = Some u \<longrightarrow> status u \<noteq> Queue"
  shows "timer_fires h now st = (st\<lparr>timers := clearTimeout h (timers st)\<rparr>, [])"
proof -
  have "getUserByName (target t) (st\<lparr>timers := clearTimeout h (timers st)\<rparr>) = getUserByName (target t) st"
    by simp
  with assms show ?thesis
    by (auto simp: timer_fires_def timeout_callback_after split: option.splits)
qed

lemma timer_fires_queued:
  assumes "consistent st" and "find (\<lambda>t. handle t = h) (timers st) = Some t"
    and "getUserByName (target t) st = Some u" and "status u = Queue"
    and "userSocketByName (target t) st = Some s"
  shows "consistent (st\<lparr>timers := clearTimeout h (timers st),
                          users := AList.update s (u\<lparr>status := Idle, joinedAt := now\<rparr>) (users st)\<rparr>)
       \<and> timer_fires h now st =
           (fst (notifyNextInQueue
                  (st\<lparr>timers := clearTimeout h (timers st),
                      users := AList.update s (u\<lparr>status := Idle, joinedAt := now\<rparr>) (users st)\<rparr>)),
            map QueueTimeout (getSocketsByName (target t) st)
              @ broadcastState
                  (st\<lparr>timers := clearTimeout h (timers st),
                      users := AList.update s (u\<lparr>status := Idle, joinedAt := now\<rparr>) (users st)\<rparr>)
              @ snd (notifyNextInQueue
                  (st\<lparr>timers := clearTimeout h (timers st),
                      users := AList.update s (u\<lparr>status := Idle, joinedAt := now\<rparr>) (users st)\<rparr>)))"
proof -
  let ?st0 = "st\<lparr>timers := clearTimeout h (timers st)\<rparr>"
  let ?mid = "st\<lparr>timers := clearTimeout h (timers st),
                 users := AList.update s (u\<lparr>status := Idle, joinedAt := now\<rparr>) (users st)\<rparr>"
  have c0: "consistent ?st0"
    using assms(1) by (rule consistent_timers) (rule clearTimeout_subset)
  have g0: "getUserByName (target t) ?st0 = Some u"
    using assms(3) by simp
  from assms(3,5) have u: "map_of (users st) s = Some u"
    by (simp add: getUserByName_resolved)
  from assms(1) have "inv_registry st" by (simp add: consistent_def)
  from getSocketsByName_resolved [OF this assms(5)]
  have sock: "getSocketsByName (target t) ?st0 = [s]" "getSocketsByName (target t) st = [s]"
    by (simp_all add: getSocketsByName_def)
  from u have "map_of (users ?st0) s = Some u" by simp
  from updateUserStatus_single [OF sock(1) this, of Idle now]
  have mid: "updateUserStatus (target t) Idle now ?st0 = ?mid" by simp
  have "consistent (updateUserStatus (target t) Idle now ?st0)"
    using c0 by (rule consistent_updateUserStatus_other) simp
  then have 1: "consistent ?mid" by (simp only: mid)
  have 2: "timer_fires h now st =
      (fst (notifyNextInQueue ?mid),
       map QueueTimeout (getSocketsByName (target t) st) @ broadcastState ?mid
         @ snd (notifyNextInQueue ?mid))"
    using assms(2,4) g0 sock
    by (simp add: timer_fires_def timeout_callback_after after_change_def mid)
  from 1 2 show ?thesis ..
qed

text \<open>
  The callback in terms of the registry. A pending claim timer fires in a reachable
  state. When the registry leads from the name it was armed for to no user or to a user
  that is not queued, the server state stays as it is (the fired timer
  leaves the table of pending timers) and nothing is sent. When the user is queued, its
  record becomes idle with the current time, \<open>queue_timeout\<close> goes to every socket of the
  name, then the \<open>state_update\<close> with the new projection, in which the identity is neither
  outside nor queued, and then the notifier runs on the changed state, with the effect
  described for every pass.
\<close>

lemma claim_timer_fires:
  assumes "reachable st" and "find (\<lambda>t. handle t = h) (timers st) = Some t"
    and "step (TimerFires h) now st = (st', out)"
  shows "((\<forall>u. getUserByName (target t) st = Some u \<longrightarrow> status u \<noteq> Queue)
           \<longrightarrow> st' = st\<lparr>timers := clearTimeout h (timers st)\<rparr> \<and> out = [])
       \<and> (\<forall>u. getUserByName (target t) st = Some u \<and> status u = Queue \<longrightarrow>
            (\<exists>s u' mid notified.
               userSocketByName (target t) st = Some s
             \<and> map_of (users st') s = Some u'
             \<and> name u' = name u \<and> status u' = Idle \<and> joinedAt u' = now
             \<and> (\<forall>e \<in> set (fst (getState st')) \<union> set (snd (getState st')).
                   toLowerCase (fst e) \<noteq> toLowerCase (name u))
             \<and> out = map QueueTimeout (getSocketsByName (target t) st)
                       @ [StateUpdate (fst (getState st')) (snd (getState st'))]
                       @ map YourTurn notified
             \<and> mid = st\<lparr>timers := clearTimeout h (timers st),
                         users := AList.update s (u\<lparr>status := Idle, joinedAt := now\<rparr>) (users st)\<rparr>
             \<and> st' = fst (notifyNextInQueue mid)
             \<and> map YourTurn notified = snd (notifyNextInQueue mid)
             \<and> notifier_post mid))"
proof (intro conjI impI allI)
  assume "\<forall>u. getUserByName (target t) st = Some u \<longrightarrow> status u \<noteq> Queue"
  from timer_fires_quiet [OF assms(2) this, of now] assms(3)
  show "st' = st\<lparr>timers := clearTimeout h (timers st)\<rparr>" and "out = []"
    by simp_all
next
  fix u
  assume a: "getUserByName (target t) st = Some u \<and> status u = Queue"
  from assms(1) have c: "consistent st" by (rule reachable_consistent)
  from a getUserByName_Some obtain s where s: "userSocketByName (target t) st = Some s"
    and u: "map_of (users st) s = Some u"
    by blast
  let ?mid = "st\<lparr>timers := clearTimeout h (timers st),
                 users := AList.update s (u\<lparr>status := Idle, joinedAt := now\<rparr>) (users st)\<rparr>"
  from timer_fires_queued [OF c assms(2) conjunct1 [OF a] conjunct2 [OF a] s, of now]
  have cm: "consistent ?mid"
    and tf: "timer_fires h now st =
      (fst (notifyNextInQueue ?mid),
       map QueueTimeout (getSocketsByName (target t) st) @ broadcastState ?mid
         @ snd (notifyNextInQueue ?mid))"
    by blast+
  from tf assms(3) have st': "st' = fst (notifyNextInQueue ?mid)"
    and out: "out = map QueueTimeout (getSocketsByName (target t) st) @ broadcastState ?mid
         @ snd (notifyNextInQueue ?mid)"
    by simp_all
  from notifyNextInQueue_out [of ?mid] obtain notified where
    n: "snd (notifyNextInQueue ?mid) = map YourTurn notified" ..
  have g: "getState st' = getState ?mid" unfolding st' by simp
  have b: "broadcastState ?mid = [StateUpdate (fst (getState st')) (snd (getState st'))]"
    unfolding g by (simp add: broadcastState_def split_def)
  have "map_of (users ?mid) s = Some (u\<lparr>status := Idle, joinedAt := now\<rparr>)"
    by (simp add: update_conv')
  from pass_record [OF this] obtain u' where
    u': "map_of (users st') s = Some u'" "name u' = name u" "status u' = Idle" "joinedAt u' = now"
    unfolding st' by auto
  have c': "consistent st'" unfolding st' using cm by (rule consistent_notifyNextInQueue)
  then have us': "inv_users st'" by (simp add: consistent_def)
  have absent: "\<forall>e \<in> set (fst (getState st')) \<union> set (snd (getState st')).
                   toLowerCase (fst e) \<noteq> toLowerCase (name u)"
  proof
    fix e
    assume e: "e \<in> set (fst (getState st')) \<union> set (snd (getState st'))"
    show "toLowerCase (fst e) \<noteq> toLowerCase (name u)"
    proof
      assume k: "toLowerCase (fst e) = toLowerCase (name u)"
      then have k': "toLowerCase (fst e) = toLowerCase (name u')" using u'(2) by simp
      from e show False
      proof
        assume "e \<in> set (fst (getState st'))"
        from outside_entry_unique [OF us' u'(1) this k'] u'(3) show False by simp
      next
        assume "e \<in> set (snd (getState st'))"
        from queued_entry_unique [OF us' u'(1) this k'] u'(3) show False by simp
      qed
    qed
  qed
  have o: "out = map QueueTimeout (getSocketsByName (target t) st)
                       @ [StateUpdate (fst (getState st')) (snd (getState st'))]
                       @ map YourTurn notified"
    unfolding out b n ..
  from notifier_post_consistent [OF cm] s u' absent o st' n
  show "\<exists>s u' mid notified.
               userSocketByName (target t) st = Some s
             \<and> map_of (users st') s = Some u'
             \<and> name u' = name u \<and> status u' = Idle \<and> joinedAt u' = now
             \<and> (\<forall>e \<in> set (fst (getState st')) \<union> set (snd (getState st')).
                   toLowerCase (fst e) \<noteq> toLowerCase (name u))
             \<and> out = map QueueTimeout (getSocketsByName (target t) st)
                       @ [StateUpdate (fst (getState st')) (snd (getState st'))]
                       @ map YourTurn notified
             \<and> mid = st\<lparr>timers := clearTimeout h (timers st),
                         users := AList.update s (u\<lparr>status := Idle, joinedAt := now\<rparr>) (users st)\<rparr>
             \<and> st' = fst (notifyNextInQueue mid)
             \<and> map YourTurn notified = snd (notifyNextInQueue mid)
             \<and> notifier_post mid"
    by (intro exI [of _ s] exI [of _ u'] exI [of _ ?mid] exI [of _ notified]) simp
qed

subsection \<open>Disconnect and the claim timer\<close>

text \<open>
  The disconnect handler deletes the registry entry of the name before it calls
  \<open>clearUserNotificationTimeout\<close>, which looks the user up through the registry: the call
  finds nothing and cancels nothing.
\<close>

lemma disconnect_keeps_timer:
  assumes "map_of (users st) s = Some u"
    and "map_of (nameToSockets st) (toLowerCase (name u)) = Some [s]"
  shows "\<exists>mid. disconnect s st = after_change mid \<and> timers mid = timers st
           \<and> nextHandle mid = nextHandle st \<and> users mid = AList.delete s (users st)"
proof -
  let ?mid = "st\<lparr>nameToSockets := AList.delete (toLowerCase (name u)) (nameToSockets st),
                  users := AList.delete s (users st)\<rparr>"
  have "disconnect s st = after_change ?mid"
    using assms by (simp add: disconnect_last)
  moreover have "timers ?mid = timers st" "nextHandle ?mid = nextHandle st"
    "users ?mid = AList.delete s (users st)"
    by simp_all
  ultimately show ?thesis by blast
qed

text \<open>
  C5. In the scenario the fifth socket is queued as \<open>Alice\<close> and holds the armed timer
  with handle 0. Its disconnect removes its record and the registry entry of \<open>alice\<close>,
  but the timer stays pending. A new socket that logs in as \<open>alice\<close> and queues while
  four are outside is never told that it is its turn, and is thrown out of the queue
  when the old timer fires.
\<close>

theorem disconnect_leaves_timer:
  "map_of (users (run scenario initial)) 5
     = Some \<lparr>name = ''Alice'', status = Queue, joinedAt = 15, notificationTimeout = Some 0\<rparr>
   \<and> timers (run scenario initial) = [\<lparr>handle = 0, delay = 120000, target = ''Alice''\<rparr>]
   \<and> map_of (users (fst (step (Disconnect 5) 17 (run scenario initial)))) 5 = None
   \<and> map_of (nameToSockets (fst (step (Disconnect 5) 17 (run scenario initial)))) ''alice'' = None
   \<and> timers (fst (step (Disconnect 5) 17 (run scenario initial)))
       = [\<lparr>handle = 0, delay = 120000, target = ''Alice''\<rparr>]
   \<and> step (LeaveClass 6) 20
        (run (scenario @ [(Disconnect 5, 17), (LeaveClass 4, 18), (Login 6 (JString ''alice''), 19)]) initial)
       = (run (scenario @ [(Disconnect 5, 17), (LeaveClass 4, 18), (Login 6 (JString ''alice''), 19),
                           (LeaveClass 6, 20)]) initial,
          [StateUpdate [(''a'', 11), (''b'', 12), (''c'', 13), (''d'', 18)] [(''alice'', 20)]])
   \<and> snd (step (TimerFires 0) 120016
        (run (scenario @ [(Disconnect 5, 17), (LeaveClass 4, 18), (Login 6 (JString ''alice''), 19),
                          (LeaveClass 6, 20)]) initial))
       = [QueueTimeout 6, StateUpdate [(''a'', 11), (''b'', 12), (''c'', 13), (''d'', 18)] []]"
proof (intro conjI)
  show "map_of (users (run scenario initial)) 5
     = Some \<lparr>name = ''Alice'', status = Queue, joinedAt = 15, notificationTimeout = Some 0\<rparr>"
    by code_simp
  show "timers (run scenario initial) = [\<lparr>handle = 0, delay = 120000, target = ''Alice''\<rparr>]"
    by code_simp
  show "map_of (users (fst (step (Disconnect 5) 17 (run scenario initial)))) 5 = None"
    by code_simp
  show "map_of (nameToSockets (fst (step (Disconnect 5) 17 (run scenario initial)))) ''alice'' = None"
    by code_simp
  show "timers (fst (step (Disconnect 5) 17 (run scenario initial)))
       = [\<lparr>handle = 0, delay = 120000, target = ''Alice''\<rparr>]"
    by code_simp
  show "step (LeaveClass 6) 20
        (run (scenario @ [(Disconnect 5, 17), (LeaveClass 4, 18), (Login 6 (JString ''alice''), 19)]) initial)
       = (run (scenario @ [(Disconnect 5, 17), (LeaveClass 4, 18), (Login 6 (JString ''alice''), 19),
                           (LeaveClass 6, 20)]) initial,
          [StateUpdate [(''a'', 11), (''b'', 12), (''c'', 13), (''d'', 18)] [(''alice'', 20)]])"
    by code_simp
  show "snd (step (TimerFires 0) 120016
        (run (scenario @ [(Disconnect 5, 17), (LeaveClass 4, 18), (Login 6 (JString ''alice''), 19),
                          (LeaveClass 6, 20)]) initial))
       = [QueueTimeout 6, StateUpdate [(''a'', 11), (''b'', 12), (''c'', 13), (''d'', 18)] []]"
    by code_simp
qed

subsection \<open>Events outside their domain\<close>

lemma come_back_elsewhere:
  "map_of (users st) s = Some u \<Longrightarrow> status u \<noteq> Outside \<Longrightarrow> come_back s now st = (st, [])"
  by (simp add: come_back_def)

lemma leave_queue_elsewhere:
  "map_of (users st) s = Some u \<Longrightarrow> status u \<noteq> Queue \<Longrightarrow> leave_queue s now st = (st, [])"
  by (simp add: leave_queue_def)

text \<open>
  C6. \<open>come_back\<close> from a status other than outside and \<open>leave_queue\<close> from a status other
  than queue return the state unchanged and send nothing. \<open>leave_class\<close> has no such guard:
  after the first nine events of the scenario four identities are outside and nobody is
  queued; \<open>leave_class\<close> from the first socket, which is outside, moves it into the queue,
  broadcasts the new state, and the notifier at once tells it that it is its turn.
\<close>

theorem leave_class_while_outside:
  "map_of (users (run (take 9 scenario) initial)) 1
     = Some \<lparr>name = ''a'', status = Outside, joinedAt = 11, notificationTimeout = None\<rparr>
   \<and> snd (step (LeaveClass 1) 20 (run (take 9 scenario) initial))
       = [StateUpdate [(''b'', 12), (''c'', 13), (''d'', 14)] [(''a'', 20)], YourTurn 1]
   \<and> map_of (users (fst (step (LeaveClass 1) 20 (run (take 9 scenario) initial)))) 1
       = Some \<lparr>name = ''a'', status = Queue, joinedAt = 20, notificationTimeout = Some 0\<rparr>
   \<and> fst (step (LeaveClass 1) 20 (run (take 9 scenario) initial)) \<noteq> run (take 9 scenario) initial"
proof -
  have 1: "map_of (users (run (take 9 scenario) initial)) 1
     = Some \<lparr>name = ''a'', status = Outside, joinedAt = 11, notificationTimeout = None\<rparr>"
    by code_simp
  have 2: "snd (step (LeaveClass 1) 20 (run (take 9 scenario) initial))
       = [StateUpdate [(''b'', 12), (''c'', 13), (''d'', 14)] [(''a'', 20)], YourTurn 1]"
    by code_simp
  have 3: "map_of (users (fst (step (LeaveClass 1) 20 (run (take 9 scenario) initial)))) 1
       = Some \<lparr>name = ''a'', status = Queue, joinedAt = 20, notificationTimeout = Some 0\<rparr>"
    by code_simp
  from 1 3 have 4: "fst (step (LeaveClass 1) 20 (run (take 9 scenario) initial)) \<noteq> run (take 9 scenario) initial"
    by auto
  from 1 2 3 4 show ?thesis by blast
qed

subsection \<open>Timers that no record holds\<close>

lemma stale_state:
  "run stale_scenario initial =
     \<lparr>users =
        [(1, \<lparr>name = ''a'', status = Outside, joinedAt = 11, notificationTimeout = None\<rparr>),
         (2, \<lparr>name = ''b'', status = Outside, joinedAt = 12, notificationTimeout = None\<rparr>),
         (3, \<lparr>name = ''c'', status = Outside, joinedAt = 13, notificationTimeout = None\<rparr>),
         (4, \<lparr>name = ''d'', status = Outside, joinedAt = 18, notificationTimeout = None\<rparr>),
         (6, \<lparr>name = ''alice'', status = Idle, joinedAt = 19, notificationTimeout = None\<rparr>)],
      nameToSockets = [(''a'', [1]), (''b'', [2]), (''c'', [3]), (''d'', [4]), (''alice'', [6])],
      timers = [\<lparr>handle = 0, delay = 120000, target = ''Alice''\<rparr>],
      nextHandle = 1\<rparr>"
  by code_simp

lemma stale_leave_class:
  "step (LeaveClass 6) 20 (run stale_scenario initial) =
     (\<lparr>users =
        [(1, \<lparr>name = ''a'', status = Outside, joinedAt = 11, notificationTimeout = None\<rparr>),
         (2, \<lparr>name = ''b'', status = Outside, joinedAt = 12, notificationTimeout = None\<rparr>),
         (3, \<lparr>name = ''c'', status = Outside, joinedAt = 13, notificationTimeout = None\<rparr>),
         (4, \<lparr>name = ''d'', status = Outside, joinedAt = 18, notificationTimeout = None\<rparr>),
         (6, \<lparr>name = ''alice'', status = Queue, joinedAt = 20, notificationTimeout = None\<rparr>)],
      nameToSockets = [(''a'', [1]), (''b'', [2]), (''c'', [3]), (''d'', [4]), (''alice'', [6])],
      timers = [\<lparr>handle = 0, delay = 120000, target = ''Alice''\<rparr>],
      nextHandle = 1\<rparr>,
      [StateUpdate [(''a'', 11), (''b'', 12), (''c'', 13), (''d'', 18)] [(''alice'', 20)]])"
  unfolding stale_state by code_simp

lemma stale_fires:
  "step (TimerFires 0) 120016 (fst (step (LeaveClass 6) 20 (run stale_scenario initial))) =
     (\<lparr>users =
        [(1, \<lparr>name = ''a'', status = Outside, joinedAt = 11, notificationTimeout = None\<rparr>),
         (2, \<lparr>name = ''b'', status = Outside, joinedAt = 12, notificationTimeout = None\<rparr>),
         (3, \<lparr>name = ''c'', status = Outside, joinedAt = 13, notificationTimeout = None\<rparr>),
         (4, \<lparr>name = ''d'', status = Outside, joinedAt = 18, notificationTimeout = None\<rparr>),
         (6, \<lparr>name = ''alice'', status = Idle, joinedAt = 120016, notificationTimeout = None\<rparr>)],
      nameToSockets = [(''a'', [1]), (''b'', [2]), (''c'', [3]), (''d'', [4]), (''alice'', [6])],
      timers = [],
      nextHandle = 1\<rparr>,
      [QueueTimeout 6, StateUpdate [(''a'', 11), (''b'', 12), (''c'', 13), (''d'', 18)] []])"
  unfolding stale_leave_class fst_conv by code_simp

lemma same_key: "toLowerCase ''Alice'' = toLowerCase ''alice''"
  by code_simp

text \<open>
  C2. In the state after \<open>stale_scenario\<close> the timer with handle 0, armed for \<open>Alice\<close>
  before the disconnect, is still pending, and the record of the new socket 6 of
  \<open>alice\<close> holds no handle. \<open>leave_class\<close> from socket 6 queues the identity and resets
  \<open>joinedAt\<close>, but its call of \<open>clearUserNotificationTimeout\<close> finds no handle in the
  record: the pending timer of the identity is not cancelled, and when it fires it throws
  the identity out of the queue.
\<close>

theorem leave_class_keeps_stale_timer:
  "map_of (users (run stale_scenario initial)) 6
     = Some \<lparr>name = ''alice'', status = Idle, joinedAt = 19, notificationTimeout = None\<rparr>
   \<and> timers (run stale_scenario initial) = [\<lparr>handle = 0, delay = 120000, target = ''Alice''\<rparr>]
   \<and> toLowerCase ''Alice'' = toLowerCase ''alice''
   \<and> map_of (users (fst (step (LeaveClass 6) 20 (run stale_scenario initial)))) 6
       = Some \<lparr>name = ''alice'', status = Queue, joinedAt = 20, notificationTimeout = None\<rparr>
   \<and> timers (fst (step (LeaveClass 6) 20 (run stale_scenario initial)))
       = [\<lparr>handle = 0, delay = 120000, target = ''Alice''\<rparr>]
   \<and> snd (step (TimerFires 0) 120016 (fst (step (LeaveClass 6) 20 (run stale_scenario initial))))
       = [QueueTimeout 6, StateUpdate [(''a'', 11), (''b'', 12), (''c'', 13), (''d'', 18)] []]"
proof -
  have 1: "map_of (users (run stale_scenario initial)) 6
     = Some \<lparr>name = ''alice'', status = Idle, joinedAt = 19, notificationTimeout = None\<rparr>"
    "timers (run stale_scenario initial) = [\<lparr>handle = 0, delay = 120000, target = ''Alice''\<rparr>]"
    unfolding stale_state by simp_all
  have 2: "map_of (users (fst (step (LeaveClass 6) 20 (run stale_scenario initial)))) 6
       = Some \<lparr>name = ''alice'', status = Queue, joinedAt = 20, notificationTimeout = None\<rparr>"
    "timers (fst (step (LeaveClass 6) 20 (run stale_scenario initial)))
       = [\<lparr>handle = 0, delay = 120000, target = ''Alice''\<rparr>]"
    unfolding stale_leave_class by simp_all
  have 3: "snd (step (TimerFires 0) 120016 (fst (step (LeaveClass 6) 20 (run stale_scenario initial))))
       = [QueueTimeout 6, StateUpdate [(''a'', 11), (''b'', 12), (''c'', 13), (''d'', 18)] []]"
    unfolding stale_fires by simp
  from 1 2 3 same_key show ?thesis by blast
qed

text \<open>
  C3. \<open>leave_class\<close> from socket 6 after \<open>stale_scenario\<close> ends with a pass of the
  notifier. After the pass four identities are outside, so no slot is available, and
  \<open>alice\<close> is the only queued identity; yet the timer with handle 0, armed for \<open>Alice\<close>
  by the pass that followed \<open>come_back\<close> of the fourth socket, is still pending. It has
  not been cancelled, it is armed for a queued identity while \<open>avail = 0\<close>, and when it
  fires the identity gets \<open>queue_timeout\<close> and becomes idle.
\<close>

theorem stale_timer_survives_pass:
  "timers (run scenario initial) = [\<lparr>handle = 0, delay = 120000, target = ''Alice''\<rparr>]
   \<and> takes_effect (LeaveClass 6) (run stale_scenario initial)
   \<and> snd (step (LeaveClass 6) 20 (run stale_scenario initial))
       = [StateUpdate [(''a'', 11), (''b'', 12), (''c'', 13), (''d'', 18)] [(''alice'', 20)]]
   \<and> getState (fst (step (LeaveClass 6) 20 (run stale_scenario initial)))
       = ([(''a'', 11), (''b'', 12), (''c'', 13), (''d'', 18)], [(''alice'', 20)])
   \<and> slots (fst (step (LeaveClass 6) 20 (run stale_scenario initial))) = 0
   \<and> timers (fst (step (LeaveClass 6) 20 (run stale_scenario initial)))
       = [\<lparr>handle = 0, delay = 120000, target = ''Alice''\<rparr>]
   \<and> toLowerCase ''Alice'' = toLowerCase ''alice''
   \<and> map_of (users (fst (step (TimerFires 0) 120016
                 (fst (step (LeaveClass 6) 20 (run stale_scenario initial)))))) 6
       = Some \<lparr>name = ''alice'', status = Idle, joinedAt = 120016, notificationTimeout = None\<rparr>
   \<and> snd (step (TimerFires 0) 120016 (fst (step (LeaveClass 6) 20 (run stale_scenario initial))))
       = [QueueTimeout 6, StateUpdate [(''a'', 11), (''b'', 12), (''c'', 13), (''d'', 18)] []]"
proof -
  have 1: "timers (run scenario initial) = [\<lparr>handle = 0, delay = 120000, target = ''Alice''\<rparr>]"
    by code_simp
  have 2: "takes_effect (LeaveClass 6) (run stale_scenario initial)"
    unfolding stale_state by simp
  have 3: "getState (fst (step (LeaveClass 6) 20 (run stale_scenario initial)))
       = ([(''a'', 11), (''b'', 12), (''c'', 13), (''d'', 18)], [(''alice'', 20)])"
    unfolding stale_leave_class fst_conv by code_simp
  have 4: "slots (fst (step (LeaveClass 6) 20 (run stale_scenario initial))) = 0"
    unfolding slots_def 3 by (simp add: MAX_OUTSIDE_def)
  have 5: "snd (step (LeaveClass 6) 20 (run stale_scenario initial))
       = [StateUpdate [(''a'', 11), (''b'', 12), (''c'', 13), (''d'', 18)] [(''alice'', 20)]]"
    "timers (fst (step (LeaveClass 6) 20 (run stale_scenario initial)))
       = [\<lparr>handle = 0, delay = 120000, target = ''Alice''\<rparr>]"
    unfolding stale_leave_class by simp_all
  have 6: "map_of (users (fst (step (TimerFires 0) 120016
                 (fst (step (LeaveClass 6) 20 (run stale_scenario initial)))))) 6
       = Some \<lparr>name = ''alice'', status = Idle, joinedAt = 120016, notificationTimeout = None\<rparr>"
    "snd (step (TimerFires 0) 120016 (fst (step (LeaveClass 6) 20 (run stale_scenario initial))))
       = [QueueTimeout 6, StateUpdate [(''a'', 11), (''b'', 12), (''c'', 13), (''d'', 18)] []]"
    unfolding stale_fires by simp_all
  from 1 2 3 4 5 6 same_key show ?thesis by blast
qed

subsection \<open>A second login under another name\<close>

lemma rename_state:
  "run rename_scenario initial =
     \<lparr>users =
        [(1, \<lparr>name = ''a'', status = Outside, joinedAt = 11, notificationTimeout = None\<rparr>),
         (2, \<lparr>name = ''b'', status = Outside, joinedAt = 12, notificationTimeout = None\<rparr>),
         (3, \<lparr>name = ''c'', status = Outside, joinedAt = 13, notificationTimeout = None\<rparr>),
         (4, \<lparr>name = ''d'', status = Outside, joinedAt = 18, notificationTimeout = None\<rparr>),
         (5, \<lparr>name = ''Zed'', status = Queue, joinedAt = 19, notificationTimeout = None\<rparr>)],
      nameToSockets =
        [(''a'', [1]), (''b'', [2]), (''c'', [3]), (''d'', [4]), (''alice'', [5]), (''zed'', [5])],
      timers = [\<lparr>handle = 0, delay = 120000, target = ''Alice''\<rparr>],
      nextHandle = 1\<rparr>"
  by code_simp

lemma rename_fires:
  "step (TimerFires 0) 120016 (run rename_scenario initial) =
     (\<lparr>users =
        [(1, \<lparr>name = ''a'', status = Outside, joinedAt = 11, notificationTimeout = None\<rparr>),
         (2, \<lparr>name = ''b'', status = Outside, joinedAt = 12, notificationTimeout = None\<rparr>),
         (3, \<lparr>name = ''c'', status = Outside, joinedAt = 13, notificationTimeout = None\<rparr>),
         (4, \<lparr>name = ''d'', status = Outside, joinedAt = 18, notificationTimeout = None\<rparr>),
         (5, \<lparr>name = ''Zed'', status = Idle, joinedAt = 120016, notificationTimeout = None\<rparr>)],
      nameToSockets =
        [(''a'', [1]), (''b'', [2]), (''c'', [3]), (''d'', [4]), (''alice'', [5]), (''zed'', [5])],
      timers = [],
      nextHandle = 1\<rparr>,
      [QueueTimeout 5, StateUpdate [(''a'', 11), (''b'', 12), (''c'', 13), (''d'', 18)] []])"
  unfolding rename_state by code_simp

text \<open>
  C4. After \<open>rename_scenario\<close> no user record and no entry of the projection carries the
  name \<open>Alice\<close>: the identity the pending timer 0 was armed for is not queued. The login
  handler has left the registry entry of \<open>alice\<close> bound to socket 5, so when the timer
  fires the callback finds the record of \<open>Zed\<close>, which is queued, sets it idle and sends
  \<open>queue_timeout\<close> to socket 5, instead of changing nothing.
\<close>

theorem timer_evicts_other_identity:
  "map (\<lambda>p. name (snd p)) (users (run rename_scenario initial)) = [''a'', ''b'', ''c'', ''d'', ''Zed'']
   \<and> getState (run rename_scenario initial)
       = ([(''a'', 11), (''b'', 12), (''c'', 13), (''d'', 18)], [(''Zed'', 19)])
   \<and> timers (run rename_scenario initial) = [\<lparr>handle = 0, delay = 120000, target = ''Alice''\<rparr>]
   \<and> map_of (users (run rename_scenario initial)) 5
       = Some \<lparr>name = ''Zed'', status = Queue, joinedAt = 19, notificationTimeout = None\<rparr>
   \<and> map_of (users (fst (step (TimerFires 0) 120016 (run rename_scenario initial)))) 5
       = Some \<lparr>name = ''Zed'', status = Idle, joinedAt = 120016, notificationTimeout = None\<rparr>
   \<and> snd (step (TimerFires 0) 120016 (run rename_scenario initial))
       = [QueueTimeout 5, StateUpdate [(''a'', 11), (''b'', 12), (''c'', 13), (''d'', 18)] []]"
proof -
  have 1: "getState (run rename_scenario initial)
       = ([(''a'', 11), (''b'', 12), (''c'', 13), (''d'', 18)], [(''Zed'', 19)])"
    unfolding rename_state by code_simp
  have 2: "map (\<lambda>p. name (snd p)) (users (run rename_scenario initial)) = [''a'', ''b'', ''c'', ''d'', ''Zed'']"
    "timers (run rename_scenario initial) = [\<lparr>handle = 0, delay = 120000, target = ''Alice''\<rparr>]"
    "map_of (users (run rename_scenario initial)) 5
       = Some \<lparr>name = ''Zed'', status = Queue, joinedAt = 19, notificationTimeout = None\<rparr>"
    unfolding rename_state by simp_all
  have 3: "map_of (users (fst (step (TimerFires 0) 120016 (run rename_scenario initial)))) 5
       = Some \<lparr>name = ''Zed'', status = Idle, joinedAt = 120016, notificationTimeout = None\<rparr>"
    "snd (step (TimerFires 0) 120016 (run rename_scenario initial))
       = [QueueTimeout 5, StateUpdate [(''a'', 11), (''b'', 12), (''c'', 13), (''d'', 18)] []]"
    unfolding rename_fires by simp_all
  from 1 2 3 show ?thesis by blast
qed

end
